theory Spec2Isabelle
  imports Complex_Main "HOL-Library.Multiset"
begin

section \<open>JavaScript values\<close>

text \<open>
  A JavaScript number is a finite value, NaN or one of the two infinities. Finite doubles
  are idealised as exact reals: rounding and overflow are not modelled, and the two zeros
  are one value. The primitive values that occur in a track row are undefined, null,
  booleans, numbers and strings. A string is a list of code units below 256.
\<close>

datatype jsnum = Finite real | NaN | PInf | NInf

datatype jsval = Undefined | Null | Bool bool | Num jsnum | Str (the_str: string)

text \<open>\<^verbatim>\<open>Number.isFinite\<close> on a number, and on any value (false for a non-number).\<close>

fun isFinite :: "jsnum \<Rightarrow> bool" where
  "isFinite (Finite r) = True"
| "isFinite NaN = False"
| "isFinite PInf = False"
| "isFinite NInf = False"

fun isFiniteVal :: "jsval \<Rightarrow> bool" where
  "isFiniteVal (Num n) = isFinite n"
| "isFiniteVal v = False"

text \<open>\<^verbatim>\<open>x != null\<close> is false exactly for null and undefined; \<^verbatim>\<open>x ?? y\<close> picks
  \<^verbatim>\<open>y\<close> for those two.\<close>

definition nullish :: "jsval \<Rightarrow> bool" where
  "nullish v = (v = Undefined \<or> v = Null)"

definition nullish_or :: "jsval \<Rightarrow> jsval \<Rightarrow> jsval" where
  "nullish_or v d = (if nullish v then d else v)"

text \<open>\<^verbatim>\<open>a === b\<close> on primitives: same type and same value, and NaN equals nothing.\<close>

definition strict_eq :: "jsval \<Rightarrow> jsval \<Rightarrow> bool" where
  "strict_eq a b = (a = b \<and> a \<noteq> Num NaN)"

fun js_neg :: "jsnum \<Rightarrow> jsnum" where
  "js_neg (Finite r) = Finite (- r)"
| "js_neg NaN = NaN"
| "js_neg PInf = NInf"
| "js_neg NInf = PInf"

fun js_add :: "jsnum \<Rightarrow> jsnum \<Rightarrow> jsnum" where
  "js_add (Finite a) (Finite b) = Finite (a + b)"
| "js_add NaN _ = NaN"
| "js_add _ NaN = NaN"
| "js_add PInf NInf = NaN"
| "js_add NInf PInf = NaN"
| "js_add PInf _ = PInf"
| "js_add NInf _ = NInf"
| "js_add _ PInf = PInf"
| "js_add _ NInf = NInf"

definition js_sub :: "jsnum \<Rightarrow> jsnum \<Rightarrow> jsnum" where
  "js_sub a b = js_add a (js_neg b)"

text \<open>\<^verbatim>\<open>Math.log10\<close>: NaN below zero, minus infinity at zero.\<close>

fun log10 :: "jsnum \<Rightarrow> jsnum" where
  "log10 (Finite r) = (if r < 0 then NaN else if r = 0 then NInf else Finite (log 10 r))"
| "log10 NaN = NaN"
| "log10 PInf = PInf"
| "log10 NInf = NaN"

section \<open>Strings\<close>

text \<open>White space and line terminators of ECMAScript among the code units below 256:
  TAB, LF, VT, FF, CR, SP and NBSP.\<close>

definition is_ws :: "char \<Rightarrow> bool" where
  "is_ws c = ((of_char c :: nat) \<in> {9, 10, 11, 12, 13, 32, 160})"

definition trim_start :: "string \<Rightarrow> string" where
  "trim_start s = dropWhile is_ws s"

definition trim_end :: "string \<Rightarrow> string" where
  "trim_end s = rev (dropWhile is_ws (rev s))"

definition trim :: "string \<Rightarrow> string" where
  "trim s = trim_end (trim_start s)"

text \<open>\<^verbatim>\<open>s.split(c)\<close> for a one-character separator: always at least one piece.\<close>

fun split_on :: "char \<Rightarrow> string \<Rightarrow> string list" where
  "split_on c [] = [[]]"
| "split_on c (x # xs) =
     (if x = c then [] # split_on c xs
      else (case split_on c xs of [] \<Rightarrow> [[x]] | p # ps \<Rightarrow> (x # p) # ps))"

text \<open>\<^verbatim>\<open>s.replace(/^[...]/, "")\<close> and \<^verbatim>\<open>s.replace(/[...]$/, "")\<close> for a character
  class: one character is removed at the start (at the end) when it is in the class.\<close>

definition strip_leading :: "char set \<Rightarrow> string \<Rightarrow> string" where
  "strip_leading cs s = (case s of [] \<Rightarrow> [] | c # t \<Rightarrow> if c \<in> cs then t else s)"

definition strip_trailing :: "char set \<Rightarrow> string \<Rightarrow> string" where
  "strip_trailing cs s = (if s \<noteq> [] \<and> last s \<in> cs then butlast s else s)"

text \<open>\<^verbatim>\<open>s.toLowerCase()\<close> on code units below 256.\<close>

definition lower_char :: "char \<Rightarrow> char" where
  "lower_char c =
     (let n = (of_char c :: nat)
      in if (65 \<le> n \<and> n \<le> 90) \<or> (192 \<le> n \<and> n \<le> 222 \<and> n \<noteq> 215)
         then char_of (n + 32) else c)"

definition toLowerCase :: "string \<Rightarrow> string" where
  "toLowerCase s = map lower_char s"

subsection \<open>String to number\<close>

text \<open>
  \<^verbatim>\<open>Number(s)\<close> on a string follows the StringNumericLiteral grammar: the text is trimmed;
  empty text is 0; a literal is an optionally signed decimal (digits, an optional
  fraction, an optional exponent, or \<^verbatim>\<open>Infinity\<close>) or an unsigned hexadecimal, octal or
  binary integer; anything else is NaN.
\<close>

definition is_digit :: "char \<Rightarrow> bool" where
  "is_digit c = (48 \<le> (of_char c :: nat) \<and> (of_char c :: nat) \<le> 57)"

definition digit_val :: "char \<Rightarrow> nat" where
  "digit_val c = (of_char c :: nat) - 48"

definition digits_val :: "string \<Rightarrow> nat" where
  "digits_val ds = foldl (\<lambda>a c. 10 * a + digit_val c) 0 ds"

definition radix_digit :: "char \<Rightarrow> nat option" where
  "radix_digit c =
     (let n = (of_char c :: nat)
      in if 48 \<le> n \<and> n \<le> 57 then Some (n - 48)
         else if 97 \<le> n \<and> n \<le> 102 then Some (n - 87)
         else if 65 \<le> n \<and> n \<le> 70 then Some (n - 55)
         else None)"

definition parse_radix :: "nat \<Rightarrow> string \<Rightarrow> jsnum" where
  "parse_radix b ds =
     (if ds \<noteq> [] \<and> list_all (\<lambda>c. case radix_digit c of None \<Rightarrow> False | Some d \<Rightarrow> d < b) ds
      then Finite (real (foldl (\<lambda>a c. b * a + the (radix_digit c)) 0 ds))
      else NaN)"

definition parse_exponent :: "string \<Rightarrow> int option" where
  "parse_exponent s =
     (case s of
        [] \<Rightarrow> Some 0
      | c # t \<Rightarrow>
          if c = CHR ''e'' \<or> c = CHR ''E'' then
            (let neg = (t \<noteq> [] \<and> hd t = CHR ''-'');
                 ds = (if t \<noteq> [] \<and> (hd t = CHR ''-'' \<or> hd t = CHR ''+'') then tl t else t)
             in if ds \<noteq> [] \<and> list_all is_digit ds
                then Some (if neg then - int (digits_val ds) else int (digits_val ds))
                else None)
          else None)"

definition scale10 :: "real \<Rightarrow> int \<Rightarrow> real" where
  "scale10 v e = (if 0 \<le> e then v * 10 ^ nat e else v / 10 ^ nat (- e))"

definition parse_unsigned :: "string \<Rightarrow> jsnum" where
  "parse_unsigned s =
     (if s = ''Infinity'' then PInf
      else
        (let ip = takeWhile is_digit s;
             r1 = dropWhile is_digit s;
             dot = (r1 \<noteq> [] \<and> hd r1 = CHR ''.'');
             fp = (if dot then takeWhile is_digit (tl r1) else []);
             r2 = (if dot then dropWhile is_digit (tl r1) else r1)
         in if ip = [] \<and> fp = [] then NaN
            else (case parse_exponent r2 of
                    None \<Rightarrow> NaN
                  | Some e \<Rightarrow>
                      Finite (scale10 (real (digits_val ip)
                                       + real (digits_val fp) / 10 ^ length fp) e))))"

definition str_to_number :: "string \<Rightarrow> jsnum" where
  "str_to_number s =
     (let t = trim s
      in case t of
           [] \<Rightarrow> Finite 0
         | c # u \<Rightarrow>
             if c = CHR ''0'' \<and> u \<noteq> [] \<and> (hd u = CHR ''x'' \<or> hd u = CHR ''X'')
               then parse_radix 16 (tl u)
             else if c = CHR ''0'' \<and> u \<noteq> [] \<and> (hd u = CHR ''o'' \<or> hd u = CHR ''O'')
               then parse_radix 8 (tl u)
             else if c = CHR ''0'' \<and> u \<noteq> [] \<and> (hd u = CHR ''b'' \<or> hd u = CHR ''B'')
               then parse_radix 2 (tl u)
             else if c = CHR ''-'' then js_neg (parse_unsigned u)
             else if c = CHR ''+'' then parse_unsigned u
             else parse_unsigned t)"

text \<open>\<^verbatim>\<open>Number(x)\<close> and \<^verbatim>\<open>Boolean(x)\<close> on a primitive value.\<close>

fun Number :: "jsval \<Rightarrow> jsnum" where
  "Number Undefined = NaN"
| "Number Null = Finite 0"
| "Number (Bool b) = Finite (if b then 1 else 0)"
| "Number (Num n) = n"
| "Number (Str s) = str_to_number s"

fun Boolean :: "jsval \<Rightarrow> bool" where
  "Boolean Undefined = False"
| "Boolean Null = False"
| "Boolean (Bool b) = b"
| "Boolean (Num n) = (n \<noteq> NaN \<and> n \<noteq> Finite 0)"
| "Boolean (Str s) = (s \<noteq> [])"

section \<open>utils/preprocess.ts\<close>

text \<open>
  A row is a JavaScript object: a map from property names to values. A property can be
  present with the value undefined, which differs from an absent property when objects
  are spread. A raw row is what the CSV loader delivers: column names to text.
\<close>

type_synonym row = "string \<rightharpoonup> jsval"

type_synonym raw_row = "string \<rightharpoonup> string"

definition field :: "row \<Rightarrow> string \<Rightarrow> jsval" where
  "field d k = (case d k of None \<Rightarrow> Undefined | Some v \<Rightarrow> v)"

definition raw_object :: "raw_row \<Rightarrow> row" where
  "raw_object r = (\<lambda>k. map_option Str (r k))"

definition toNumber :: "jsval \<Rightarrow> jsnum \<Rightarrow> jsnum" where
  "toNumber x fallback = (let v = Number x in if isFinite v then v else fallback)"

definition toBool :: "jsval \<Rightarrow> bool" where
  "toBool x =
     (case x of
        Bool b \<Rightarrow> b
      | Str s \<Rightarrow> toLowerCase s = ''true''
      | _ \<Rightarrow> Boolean x)"

definition quote_chars :: "char set" where
  "quote_chars = {CHR 0x27, CHR 0x22}"

definition clean_piece :: "string \<Rightarrow> string" where
  "clean_piece p = strip_trailing quote_chars (strip_leading quote_chars (trim p))"

definition parseGenresTop :: "string \<Rightarrow> string" where
  "parseGenresTop genresStr =
     (if genresStr = [] then ''Unknown''
      else
        (let s = trim genresStr
         in if s = ''[]'' \<or> s = [] then ''Unknown''
            else
              (let inner = trim (strip_trailing {CHR '']''} (strip_leading {CHR ''[''} s))
               in if inner = [] then ''Unknown''
                  else
                    (let parts = filter (\<lambda>p. 0 < length p)
                                   (map clean_piece (split_on (CHR '','') inner))
                     in case parts of [] \<Rightarrow> ''Unknown'' | p # _ \<Rightarrow> p))))"

text \<open>
  The genre extractor as the specification words it: trim; \<open>Unknown\<close> for the empty text
  and for the empty-list marker; otherwise strip one leading and one trailing bracket,
  split on commas, trim each piece and strip one leading and one trailing quote, discard
  the empty pieces and return the first one left.
\<close>

definition parseGenresTop_spec :: "string \<Rightarrow> string" where
  "parseGenresTop_spec input =
     (let s = trim input
      in if s = [] \<or> s = ''[]'' then ''Unknown''
         else
           (let rest = strip_trailing {CHR '']''} (strip_leading {CHR ''[''} s);
                pieces = map (\<lambda>p. strip_trailing quote_chars (strip_leading quote_chars (trim p)))
                           (split_on (CHR '','') rest)
            in case filter (\<lambda>p. p \<noteq> []) pieces of [] \<Rightarrow> ''Unknown'' | p # _ \<Rightarrow> p))"

text \<open>
  One row of \<^verbatim>\<open>preprocessTracks\<close>. The current year comes from the clock and is a
  parameter. The result spreads the raw row and then sets the normalised properties, so
  each of them is present in every result, some with the value undefined.
\<close>

definition opt_num :: "jsnum \<Rightarrow> jsval" where
  "opt_num n = (if isFinite n then Num n else Undefined)"

definition js_div :: "jsnum \<Rightarrow> real \<Rightarrow> jsnum" where
  "js_div n c = (case n of Finite r \<Rightarrow> Finite (r / c) | _ \<Rightarrow> n)"

definition ge_num :: "jsnum \<Rightarrow> real \<Rightarrow> bool" where
  "ge_num n c = (case n of Finite r \<Rightarrow> c \<le> r | PInf \<Rightarrow> True | _ \<Rightarrow> False)"

definition le_num :: "jsnum \<Rightarrow> real \<Rightarrow> bool" where
  "le_num n c = (case n of Finite r \<Rightarrow> r \<le> c | NInf \<Rightarrow> True | _ \<Rightarrow> False)"

definition yearRaw :: "raw_row \<Rightarrow> jsnum" where
  "yearRaw r =
     (case r ''album_release_date'' of
        None \<Rightarrow> NaN
      | Some s \<Rightarrow> if 4 \<le> length s then Number (Str (take 4 s)) else NaN)"

definition year :: "int \<Rightarrow> raw_row \<Rightarrow> jsval" where
  "year currentYear r =
     (if isFinite (yearRaw r) \<and> ge_num (yearRaw r) 1900
         \<and> le_num (yearRaw r) (real_of_int (currentYear + 1))
      then Num (yearRaw r) else Undefined)"

definition followers :: "raw_row \<Rightarrow> jsnum" where
  "followers r = toNumber (field (raw_object r) ''artist_followers'') (Finite 0)"

definition followersLog :: "raw_row \<Rightarrow> jsnum" where
  "followersLog r = log10 (js_add (followers r) (Finite 1))"

definition preprocessRow :: "int \<Rightarrow> raw_row \<Rightarrow> row" where
  "preprocessRow currentYear r =
     (let x = raw_object r;
          ms = (if \<not> nullish (field x ''track_duration_ms'')
                then toNumber (field x ''track_duration_ms'') NaN else NaN);
          minFromMs = (if isFinite ms then js_div ms 60000 else NaN);
          minFromCol = (if \<not> nullish (field x ''track_duration_min'')
                        then toNumber (field x ''track_duration_min'') NaN else NaN);
          genreTop = parseGenresTop (case r ''artist_genres'' of None \<Rightarrow> [] | Some g \<Rightarrow> g)
      in x(''track_number'' \<mapsto> Num (toNumber (field x ''track_number'') (Finite 0)),
           ''track_popularity'' \<mapsto> Num (toNumber (field x ''track_popularity'') (Finite 0)),
           ''explicit'' \<mapsto> Bool (toBool (field x ''explicit'')),
           ''artist_popularity'' \<mapsto> Num (toNumber (field x ''artist_popularity'') (Finite 0)),
           ''artist_followers'' \<mapsto> Num (followers r),
           ''album_total_tracks'' \<mapsto> Num (toNumber (field x ''album_total_tracks'') (Finite 0)),
           ''track_duration_ms'' \<mapsto> opt_num ms,
           ''track_duration_min'' \<mapsto> opt_num minFromCol,
           ''release_year'' \<mapsto> year currentYear r,
           ''followers_log'' \<mapsto> Num (followersLog r),
           ''duration_min'' \<mapsto> (if isFinite minFromCol then Num minFromCol else opt_num minFromMs),
           ''genre_top'' \<mapsto> Str genreTop))"

definition preprocessTracks :: "int \<Rightarrow> raw_row list \<Rightarrow> row list" where
  "preprocessTracks currentYear rows = map (preprocessRow currentYear) rows"

subsection \<open>Maps, sorting and slicing of the runtime\<close>

text \<open>
  A JavaScript \<^verbatim>\<open>Map\<close> keeps its entries in insertion order: setting a key that is
  present replaces the value in place, a new key goes to the end. Keys are compared by
  value.
\<close>

fun jsmap_set :: "('k \<times> 'v) list \<Rightarrow> 'k \<Rightarrow> 'v \<Rightarrow> ('k \<times> 'v) list" where
  "jsmap_set [] k v = [(k, v)]"
| "jsmap_set ((k', v') # m) k v =
     (if k' = k then (k, v) # m else (k', v') # jsmap_set m k v)"

definition jsmap_get :: "('k \<times> 'v) list \<Rightarrow> 'k \<Rightarrow> 'v option" where
  "jsmap_get m k = map_of m k"

text \<open>\<^verbatim>\<open>new Set(xs)\<close> as the list of its members in insertion order.\<close>

definition js_dedup :: "'a list \<Rightarrow> 'a list" where
  "js_dedup xs = foldl (\<lambda>acc x. if x \<in> set acc then acc else acc @ [x]) [] xs"

text \<open>
  \<^verbatim>\<open>Array.prototype.sort\<close> with a comparator is stable; a comparator result of NaN counts
  as zero. For a consistent comparator the result is the one stably sorted permutation,
  which this insertion sort computes.
\<close>

fun not_after :: "jsnum \<Rightarrow> bool" where
  "not_after (Finite r) = (r \<le> 0)"
| "not_after NaN = True"
| "not_after PInf = False"
| "not_after NInf = True"

fun js_insert :: "('a \<Rightarrow> 'a \<Rightarrow> jsnum) \<Rightarrow> 'a \<Rightarrow> 'a list \<Rightarrow> 'a list" where
  "js_insert cmp x [] = [x]"
| "js_insert cmp x (y # ys) =
     (if not_after (cmp x y) then x # y # ys else y # js_insert cmp x ys)"

definition js_sort :: "('a \<Rightarrow> 'a \<Rightarrow> jsnum) \<Rightarrow> 'a list \<Rightarrow> 'a list" where
  "js_sort cmp xs = foldr (js_insert cmp) xs []"

text \<open>\<^verbatim>\<open>xs.slice(0, k)\<close> for an integer \<^verbatim>\<open>k\<close>: a negative end counts from the end.\<close>

definition slice0 :: "'a list \<Rightarrow> int \<Rightarrow> 'a list" where
  "slice0 xs k = (if k < 0 then take (length xs - nat (- k)) xs else take (nat k) xs)"

subsection \<open>topKGenres\<close>

definition genre_label :: "row \<Rightarrow> jsval" where
  "genre_label d = nullish_or (field d ''genre_top'') (Str ''Unknown'')"

definition count_step :: "(jsval \<times> nat) list \<Rightarrow> row \<Rightarrow> (jsval \<times> nat) list" where
  "count_step counts d =
     (let g = genre_label d
      in jsmap_set counts g ((case jsmap_get counts g of None \<Rightarrow> 0 | Some c \<Rightarrow> c) + 1))"

definition by_count_desc :: "jsval \<times> nat \<Rightarrow> jsval \<times> nat \<Rightarrow> jsnum" where
  "by_count_desc a b = js_sub (Finite (real (snd b))) (Finite (real (snd a)))"

definition topKGenres :: "row list \<Rightarrow> int \<Rightarrow> jsval list" where
  "topKGenres data k =
     (let counts = foldl count_step [] data;
          sorted = js_sort by_count_desc counts
      in map fst (slice0 sorted k))"

text \<open>The bucketing every view applies: \<^verbatim>\<open>top.has(g) ? g : "Other"\<close>.\<close>

definition bucket :: "jsval list \<Rightarrow> jsval \<Rightarrow> jsval" where
  "bucket tops g = (if g \<in> set tops then g else Str ''Other'')"

section \<open>components/Dashboard.tsx\<close>

text \<open>The merge of \<^verbatim>\<open>load\<close>: the map is seeded from B, then each row of A is spread over
  the entry of its key.\<close>

definition seed_step :: "(jsval \<times> row) list \<Rightarrow> row \<Rightarrow> (jsval \<times> row) list" where
  "seed_step m r = jsmap_set m (field r ''track_id'') r"

definition merge_step :: "(jsval \<times> row) list \<Rightarrow> row \<Rightarrow> (jsval \<times> row) list" where
  "merge_step m r =
     jsmap_set m (field r ''track_id'')
       ((case jsmap_get m (field r ''track_id'') of None \<Rightarrow> Map.empty | Some b \<Rightarrow> b) ++ r)"

definition merge_by_track_id :: "row list \<Rightarrow> row list \<Rightarrow> (jsval \<times> row) list" where
  "merge_by_track_id A B = foldl merge_step (foldl seed_step [] B) A"

definition load :: "int \<Rightarrow> raw_row list \<Rightarrow> raw_row list \<Rightarrow> row list" where
  "load currentYear a b =
     map snd (merge_by_track_id (preprocessTracks currentYear a) (preprocessTracks currentYear b))"

text \<open>The selection state of the dashboard and the \<^verbatim>\<open>onSelect\<close> callback handed to the
  heatmap. Years are the finite numbers of the heatmap's axis.\<close>

record selection =
  selectedYear :: "real option"
  selectedGenre :: "string option"
  selectedTrackId :: "string option"

definition initial_selection :: selection where
  "initial_selection = \<lparr>selectedYear = None, selectedGenre = None, selectedTrackId = None\<rparr>"

definition onSelect :: "selection \<Rightarrow> real option \<Rightarrow> string option \<Rightarrow> selection" where
  "onSelect s yr genre =
     (let same = (yr = selectedYear s \<and> genre = selectedGenre s)
      in s\<lparr>selectedYear := (if same then None else yr),
           selectedGenre := (if same then None else genre)\<rparr>)"

section \<open>The three views\<close>

definition year_filter :: "real option \<Rightarrow> row list \<Rightarrow> row list" where
  "year_filter selYear rows =
     (case selYear of
        None \<Rightarrow> rows
      | Some y \<Rightarrow> filter (\<lambda>d. strict_eq (field d ''release_year'') (Num (Finite y))) rows)"

definition genre_filter :: "string option \<Rightarrow> row list \<Rightarrow> row list" where
  "genre_filter selGenre rows =
     (case selGenre of
        None \<Rightarrow> rows
      | Some sg \<Rightarrow>
          (let tops = topKGenres rows 10
           in filter (\<lambda>d. strict_eq (bucket tops (genre_label d)) (Str sg)) rows))"

subsection \<open>ScatterView: \<^verbatim>\<open>filtered\<close>\<close>

definition scatter_rows :: "row list \<Rightarrow> row list" where
  "scatter_rows data =
     filter (\<lambda>d. \<not> nullish (field d ''followers_log'') \<and> isFiniteVal (field d ''followers_log'')
               \<and> \<not> nullish (field d ''track_popularity'')
               \<and> isFiniteVal (field d ''track_popularity'')) data"

definition scatter_filtered :: "row list \<Rightarrow> real option \<Rightarrow> string option \<Rightarrow> row list" where
  "scatter_filtered data selYear selGenre =
     take 2500 (genre_filter selGenre (year_filter selYear (scatter_rows data)))"

subsection \<open>ParallelCoordsView: \<^verbatim>\<open>sample\<close>\<close>

definition pc_rows :: "row list \<Rightarrow> row list" where
  "pc_rows data =
     filter (\<lambda>d. \<not> nullish (field d ''followers_log'') \<and> \<not> nullish (field d ''duration_min'')) data"

definition pc_filtered :: "row list \<Rightarrow> real option \<Rightarrow> string option \<Rightarrow> row list" where
  "pc_filtered data selYear selGenre = genre_filter selGenre (year_filter selYear (pc_rows data))"

definition popularity :: "row \<Rightarrow> jsnum" where
  "popularity d = Number (nullish_or (field d ''track_popularity'') (Num (Finite 0)))"

definition by_popularity_desc :: "row \<Rightarrow> row \<Rightarrow> jsnum" where
  "by_popularity_desc a b = js_sub (popularity b) (popularity a)"

definition sample :: "row list \<Rightarrow> real option \<Rightarrow> string option \<Rightarrow> row list" where
  "sample data selYear selGenre =
     slice0 (js_sort by_popularity_desc (pc_filtered data selYear selGenre)) 200"

subsection \<open>HeatmapView: \<^verbatim>\<open>top\<close> and \<^verbatim>\<open>genres\<close>\<close>

text \<open>
  \<^verbatim>\<open>d3.rollups\<close> groups the rows by key in order of first encounter, here with the group
  size as value; \<^verbatim>\<open>d3.descending\<close> on two numbers is -1, 1 or 0. The locale comparison of
  the runtime, \<^verbatim>\<open>a.localeCompare(b)\<close>, is a parameter.
\<close>

definition heatmap_filtered :: "row list \<Rightarrow> row list" where
  "heatmap_filtered data =
     filter (\<lambda>d. \<not> nullish (field d ''release_year'') \<and> \<not> nullish (field d ''genre_top'')) data"

definition rollup_step :: "(jsval \<times> nat) list \<Rightarrow> row \<Rightarrow> (jsval \<times> nat) list" where
  "rollup_step counts d =
     (let g = field d ''genre_top''
      in jsmap_set counts g ((case jsmap_get counts g of None \<Rightarrow> 0 | Some c \<Rightarrow> c) + 1))"

definition descending :: "nat \<Rightarrow> nat \<Rightarrow> jsnum" where
  "descending a b = (if b < a then Finite (- 1) else if a < b then Finite 1 else Finite 0)"

definition heatmap_top :: "row list \<Rightarrow> jsval list" where
  "heatmap_top data =
     (let counts = foldl rollup_step [] (heatmap_filtered data);
          sorted = js_sort (\<lambda>a b. descending (snd a) (snd b)) counts
      in map fst (slice0 sorted 10))"

definition genres_cmp :: "(string \<Rightarrow> string \<Rightarrow> int) \<Rightarrow> jsval \<Rightarrow> jsval \<Rightarrow> jsnum" where
  "genres_cmp localeCompare a b =
     (if a = Str ''Other'' then Finite 1
      else if b = Str ''Other'' then Finite (- 1)
      else Finite (real_of_int (localeCompare (the_str a) (the_str b))))"

definition heatmap_genres :: "(string \<Rightarrow> string \<Rightarrow> int) \<Rightarrow> row list \<Rightarrow> jsval list" where
  "heatmap_genres localeCompare data =
     (let tops = heatmap_top data
      in js_sort (genres_cmp localeCompare)
           (js_dedup (map (\<lambda>d. bucket tops (field d ''genre_top'')) (heatmap_filtered data))))"

text \<open>A genre name between single quotes, as a printed list shows it.\<close>

definition quoted :: "string \<Rightarrow> string" where
  "quoted g = CHR 0x27 # g @ [CHR 0x27]"

section \<open>Notions used in the statements\<close>

text \<open>The key of a row in the merge, and the entry the merge spreads a row over.\<close>

definition track_key :: "row \<Rightarrow> jsval" where
  "track_key r = field r ''track_id''"

definition entry_of :: "(jsval \<times> row) list \<Rightarrow> jsval \<Rightarrow> row" where
  "entry_of m k = (case jsmap_get m k of None \<Rightarrow> Map.empty | Some b \<Rightarrow> b)"

text \<open>Every entry of the map sits under its own track id.\<close>

definition keyed :: "(jsval \<times> row) list \<Rightarrow> bool" where
  "keyed m = (\<forall>(k, d)\<in>set m. track_key d = k)"

text \<open>The two sources of the end-to-end scenario: A knows the followers of track t1, B its
  artist popularity.\<close>

definition source_A :: "raw_row list" where
  "source_A = [[''track_id'' \<mapsto> ''t1'', ''artist_followers'' \<mapsto> ''999'']]"

definition source_B :: "raw_row list" where
  "source_B = [[''track_id'' \<mapsto> ''t1'', ''artist_popularity'' \<mapsto> ''40'']]"

text \<open>The position of the first occurrence of a value in a list (the length when absent):
  the order in which the counting pass meets the labels.\<close>

definition first_index :: "'a list \<Rightarrow> 'a \<Rightarrow> nat" where
  "first_index xs x = length (takeWhile (\<lambda>y. y \<noteq> x) xs)"

text \<open>The count table of a list of labels: one entry per label in order of first
  occurrence; and the table sorted stably by descending count.\<close>

definition counts_of :: "'a list \<Rightarrow> ('a \<times> nat) list" where
  "counts_of ls = map (\<lambda>g. (g, count_list ls g)) (js_dedup ls)"

definition ranking :: "'a list \<Rightarrow> ('a \<times> nat) list" where
  "ranking ls = sort_key (\<lambda>e. - int (snd e)) (counts_of ls)"

text \<open>A row that carries only a top genre.\<close>

definition genre_row :: "string \<Rightarrow> row" where
  "genre_row g = [''genre_top'' \<mapsto> Str g]"

text \<open>The popularity of a row as a real number, for rows whose popularity is finite.\<close>

definition popularity_value :: "row \<Rightarrow> real" where
  "popularity_value d = (case popularity d of Finite r \<Rightarrow> r | _ \<Rightarrow> 0)"

text \<open>A row with the properties the views read.\<close>

definition view_row :: "real \<Rightarrow> string \<Rightarrow> real \<Rightarrow> row" where
  "view_row yr g p =
     [''release_year'' \<mapsto> Num (Finite yr), ''genre_top'' \<mapsto> Str g,
      ''followers_log'' \<mapsto> Num (Finite 1), ''track_popularity'' \<mapsto> Num (Finite p),
      ''duration_min'' \<mapsto> Num (Finite 3)]"

text \<open>A normalised record: its track popularity is a finite number and its top genre a
  string. Every entry of the merged map is one.\<close>

definition normalised :: "row \<Rightarrow> bool" where
  "normalised d =
     ((\<exists>r. d ''track_popularity'' = Some (Num (Finite r))) \<and> (\<exists>s. d ''genre_top'' = Some (Str s)))"

definition all_normalised :: "(jsval \<times> row) list \<Rightarrow> bool" where
  "all_normalised m = (\<forall>(k, d)\<in>set m. normalised d)"

text \<open>A locale comparison for the examples: code units compared from the left, a proper
  prefix first.\<close>

fun code_unit_compare :: "string \<Rightarrow> string \<Rightarrow> int" where
  "code_unit_compare [] [] = 0"
| "code_unit_compare [] (y # ys) = - 1"
| "code_unit_compare (x # xs) [] = 1"
| "code_unit_compare (x # xs) (y # ys) =
     (if (of_char x :: nat) < of_char y then - 1
      else if (of_char y :: nat) < of_char x then 1
      else code_unit_compare xs ys)"

definition three_genres :: "row list" where
  "three_genres = [view_row 2020 ''rock'' 1, view_row 2020 ''Other'' 1, view_row 2021 ''jazz'' 1]"

text \<open>Eleven tracks of 2021 with the top genres a to k, one each, and one track of 2020
  with the genre k.\<close>

definition eleven_genres :: "row list" where
  "eleven_genres =
     map (\<lambda>g. view_row 2021 g 50)
       [''a'', ''b'', ''c'', ''d'', ''e'', ''f'', ''g'', ''h'', ''i'', ''j'', ''k'']
     @ [view_row 2020 ''k'' 50]"

text \<open>Two sources with the same track: the date of A gives no release year, the date of B
  gives 2021.\<close>

definition dated_A :: "raw_row list" where
  "dated_A = [[''track_id'' \<mapsto> ''id1'', ''album_release_date'' \<mapsto> ''99'']]"

definition dated_B :: "raw_row list" where
  "dated_B = [[''track_id'' \<mapsto> ''id1'', ''album_release_date'' \<mapsto> ''2021-05-01'']]"

section \<open>Trimming and splitting\<close>

lemma split_on_ne [simp]: "split_on c s \<noteq> []"
  by (induction s) (auto split: list.splits)

lemma split_on_no_sep: "c \<notin> set s \<Longrightarrow> split_on c s = [s]"
  by (induction s) auto

lemma split_on_single: "split_on c s = [a] \<Longrightarrow> a = s"
  by (induction s arbitrary: a) (auto split: list.splits if_splits)

lemma split_on_trim_start:
  "\<not> is_ws c \<Longrightarrow> split_on c (trim_start s) = trim_start (hd (split_on c s)) # tl (split_on c s)"
  unfolding trim_start_def
  by (induction s) (auto split: list.splits)

lemma trim_end_Cons:
  "trim_end (x # xs) = (if trim_end xs = [] \<and> is_ws x then [] else x # trim_end xs)"
  unfolding trim_end_def
  by (auto simp: dropWhile_append)

lemma trim_end_Nil [simp]: "trim_end [] = []"
  by (simp add: trim_end_def)

lemma trim_end_empty_ws: "trim_end xs = [] \<Longrightarrow> \<forall>x\<in>set xs. is_ws x"
  by (induction xs) (auto simp: trim_end_Cons split: if_splits)

text \<open>Trimming the end of a text trims the end of its last piece and leaves the other
  pieces alone, since the separator is not white space.\<close>

lemma split_on_trim_end:
  "\<not> is_ws c \<Longrightarrow>
   split_on c (trim_end s) = butlast (split_on c s) @ [trim_end (last (split_on c s))]"
proof (induction s)
  case Nil
  then show ?case by simp
next
  case (Cons x xs)
  show ?case
  proof (cases "trim_end xs = [] \<and> is_ws x")
    case True
    then have "c \<notin> set xs" using Cons.prems trim_end_empty_ws by blast
    moreover have "x \<noteq> c" using True Cons.prems by auto
    ultimately show ?thesis using True
      by (simp add: split_on_no_sep trim_end_Cons)
  next
    case False
    then show ?thesis using Cons
      by (cases "split_on c xs")
        (auto simp: trim_end_Cons split_on_no_sep split: list.splits if_splits
              dest: split_on_single)
  qed
qed

lemma trim_start_trim_end: "trim_start (trim_end l) = trim_end (trim_start l)"
  by (induction l) (auto simp: trim_end_Cons trim_start_def)

lemma trim_end_idem: "trim_end (trim_end l) = trim_end l"
  by (simp add: trim_end_def)

lemma trim_trim_end: "trim (trim_end l) = trim l"
  by (simp add: trim_def trim_start_trim_end trim_end_idem)

lemma trim_trim_start: "trim (trim_start l) = trim l"
  by (simp add: trim_def trim_start_def)

lemma map_trim_split_trim:
  assumes "\<not> is_ws c"
  shows "map trim (split_on c (trim s)) = map trim (split_on c s)"
proof -
  have "map trim (split_on c (trim s))
        = map trim (butlast (split_on c (trim_start s))) @ [trim (last (split_on c (trim_start s)))]"
    by (simp add: trim_def split_on_trim_end [OF assms] trim_trim_end [unfolded trim_def])
  also have "\<dots> = map trim (split_on c (trim_start s))"
    by (metis append_butlast_last_id list.simps(8,9) map_append split_on_ne)
  also have "\<dots> = map trim (split_on c s)"
    by (cases "split_on c s") (simp_all add: split_on_trim_start [OF assms] trim_trim_start)
  finally show ?thesis .
qed

lemma comma_not_ws: "\<not> is_ws (CHR '','')"
  by (simp add: is_ws_def)

lemma clean_pieces_trim:
  "map clean_piece (split_on (CHR '','') (trim s)) = map clean_piece (split_on (CHR '','') s)"
proof -
  have "map clean_piece xs
        = map (\<lambda>p. strip_trailing quote_chars (strip_leading quote_chars p)) (map trim xs)" for xs
    by (simp add: clean_piece_def)
  then show ?thesis
    by (simp only: map_trim_split_trim [OF comma_not_ws])
qed

lemma first_piece_trim:
  "filter (\<lambda>p. 0 < length p) (map clean_piece (split_on (CHR '','') (trim r)))
   = filter (\<lambda>p. p \<noteq> [])
       (map (\<lambda>p. strip_trailing quote_chars (strip_leading quote_chars (trim p)))
          (split_on (CHR '','') r))"
proof -
  have "clean_piece = (\<lambda>p. strip_trailing quote_chars (strip_leading quote_chars (trim p)))"
    by (rule ext) (simp add: clean_piece_def)
  then show ?thesis
    using clean_pieces_trim [of r] by simp
qed

lemma trim_Nil_pieces:
  assumes "trim r = []"
  shows "filter (\<lambda>p. p \<noteq> [])
           (map (\<lambda>p. strip_trailing quote_chars (strip_leading quote_chars (trim p)))
              (split_on (CHR '','') r)) = []"
proof -
  have "filter (\<lambda>p. 0 < length p) (map clean_piece (split_on (CHR '','') (trim r))) = []"
    unfolding assms
    by (simp add: clean_piece_def strip_leading_def strip_trailing_def trim_def trim_start_def)
  then show ?thesis
    by (simp only: first_piece_trim)
qed

lemma parseGenresTop_refines: "parseGenresTop s = parseGenresTop_spec s"
proof (cases "s = []")
  case True
  then show ?thesis
    by (simp add: parseGenresTop_def parseGenresTop_spec_def trim_def trim_start_def)
next
  case False
  define r where "r = strip_trailing {CHR '']''} (strip_leading {CHR ''[''} (trim s))"
  show ?thesis
  proof (cases "trim s = ''[]'' \<or> trim s = []")
    case True
    then show ?thesis
      using False by (auto simp add: parseGenresTop_def parseGenresTop_spec_def)
  next
    case ne: False
    have code: "parseGenresTop s =
      (if trim r = [] then ''Unknown''
       else case filter (\<lambda>p. 0 < length p) (map clean_piece (split_on (CHR '','') (trim r))) of
              [] \<Rightarrow> ''Unknown'' | p # _ \<Rightarrow> p)"
      using False ne unfolding parseGenresTop_def r_def Let_def by simp
    have spec: "parseGenresTop_spec s =
      (case filter (\<lambda>p. p \<noteq> [])
              (map (\<lambda>p. strip_trailing quote_chars (strip_leading quote_chars (trim p)))
                 (split_on (CHR '','') r)) of [] \<Rightarrow> ''Unknown'' | p # _ \<Rightarrow> p)"
      using ne unfolding parseGenresTop_spec_def r_def Let_def by simp
    show ?thesis
    proof (cases "trim r = []")
      case True
      then show ?thesis
        unfolding code spec by (simp add: trim_Nil_pieces)
    next
      case False
      then show ?thesis
        unfolding code spec by (simp only: first_piece_trim if_False)
    qed
  qed
qed

lemmas string_evals =
  trim_def trim_end_def trim_start_def is_ws_def strip_leading_def strip_trailing_def
  clean_piece_def quote_chars_def quoted_def

section \<open>The genre extractor\<close>

text \<open>
  C5. For every input text the genre extractor of the code returns what the algorithm of
  the specification returns: trim, \<open>Unknown\<close> for the empty text and the empty-list marker,
  otherwise strip the brackets, split on commas, trim and unquote each piece, drop the
  empty pieces and take the first. The five examples of the specification evaluate as
  stated; the case of \<open>Hip-Hop\<close> is preserved.
\<close>

theorem parseGenresTop_meets_spec:
  "(\<forall>s. parseGenresTop s = parseGenresTop_spec s)
   \<and> parseGenresTop '''' = ''Unknown''
   \<and> parseGenresTop ''[]'' = ''Unknown''
   \<and> parseGenresTop (''['' @ quoted ''pop'' @ '']'') = ''pop''
   \<and> parseGenresTop (''['' @ quoted ''pop'' @ '', '' @ quoted ''dance pop'' @ '']'') = ''pop''
   \<and> parseGenresTop (''['' @ quoted ''Hip-Hop'' @ '']'') = ''Hip-Hop''"
proof -
  have "parseGenresTop '''' = ''Unknown''"
    by (simp add: parseGenresTop_def)
  moreover have "parseGenresTop ''[]'' = ''Unknown''"
    by (simp add: parseGenresTop_def string_evals)
  moreover have "parseGenresTop (''['' @ quoted ''pop'' @ '']'') = ''pop''"
    by (simp add: parseGenresTop_def string_evals)
  moreover have
    "parseGenresTop (''['' @ quoted ''pop'' @ '', '' @ quoted ''dance pop'' @ '']'') = ''pop''"
    by (simp add: parseGenresTop_def string_evals)
  moreover have "parseGenresTop (''['' @ quoted ''Hip-Hop'' @ '']'') = ''Hip-Hop''"
    by (simp add: parseGenresTop_def string_evals)
  ultimately show ?thesis
    using parseGenresTop_refines by blast
qed

section \<open>Evaluating the normaliser\<close>

lemmas number_evals =
  str_to_number_def trim_def trim_end_def trim_start_def is_ws_def parse_unsigned_def
  is_digit_def parse_exponent_def scale10_def digits_val_def digit_val_def
  parse_radix_def radix_digit_def

lemma field_release_year: "field (preprocessRow cy r) ''release_year'' = year cy r"
  by (simp add: preprocessRow_def field_def Let_def)

lemma field_followers_log: "field (preprocessRow cy r) ''followers_log'' = Num (followersLog r)"
  by (simp add: preprocessRow_def field_def Let_def)

lemma year_char:
  "year cy r =
     (case r ''album_release_date'' of
        None \<Rightarrow> Undefined
      | Some s \<Rightarrow>
          (case (if 4 \<le> length s then str_to_number (take 4 s) else NaN) of
             Finite y \<Rightarrow> if 1900 \<le> y \<and> y \<le> real_of_int (cy + 1) then Num (Finite y) else Undefined
           | _ \<Rightarrow> Undefined))"
  by (auto simp: year_def yearRaw_def ge_num_def le_num_def split: option.splits jsnum.splits)

lemma is_digit_not_ws: "is_digit c \<Longrightarrow> \<not> is_ws c"
  by (auto simp: is_digit_def is_ws_def)

lemma four_digits:
  assumes "is_digit a" "is_digit b" "is_digit c" "is_digit d"
  shows "str_to_number [a, b, c, d]
         = Finite (real (1000 * digit_val a + 100 * digit_val b + 10 * digit_val c + digit_val d))"
proof -
  have t: "trim [a, b, c, d] = [a, b, c, d]"
    using assms by (simp add: trim_def trim_start_def trim_end_def is_digit_not_ws)
  have nb: "b \<noteq> CHR ''x''" "b \<noteq> CHR ''X''" "b \<noteq> CHR ''o''" "b \<noteq> CHR ''O''" "b \<noteq> CHR ''b''" "b \<noteq> CHR ''B''"
    using assms(2) by (auto simp: is_digit_def)
  have na: "a \<noteq> CHR ''-''" "a \<noteq> CHR ''+''"
    using assms(1) by (auto simp: is_digit_def)
  have p: "parse_unsigned [a, b, c, d]
     = Finite (real (1000 * digit_val a + 100 * digit_val b + 10 * digit_val c + digit_val d))"
    using assms by (simp add: parse_unsigned_def parse_exponent_def scale10_def digits_val_def)
  show ?thesis
    unfolding str_to_number_def t Let_def using nb na p by simp
qed

lemma digits4:
  assumes "4 \<le> length s" "list_all is_digit (take 4 s)"
  shows "str_to_number (take 4 s) = Finite (real (digits_val (take 4 s)))"
proof -
  obtain a b c d t where s: "s = a # b # c # d # t"
    using assms(1) by (cases s; cases "tl s"; cases "tl (tl s)"; cases "tl (tl (tl s))") auto
  show ?thesis
    using assms(2) unfolding s by (simp add: four_digits digits_val_def)
qed

subsection \<open>Short numeric texts\<close>

lemma digits_val_Nil: "digits_val [] = 0"
  by (simp add: digits_val_def)

lemma digits_val_snoc: "digits_val (ds @ [c]) = 10 * digits_val ds + digit_val c"
  by (simp add: digits_val_def)

lemma digits_val_bound: "list_all is_digit ds \<Longrightarrow> digits_val ds < 10 ^ length ds"
proof (induction ds rule: rev_induct)
  case Nil
  then show ?case by (simp add: digits_val_def)
next
  case (snoc c ds)
  then have "digit_val c \<le> 9" "digits_val ds < 10 ^ length ds"
    by (auto simp: is_digit_def digit_val_def)
  then show ?case
    by (simp add: digits_val_snoc)
qed

lemma parse_exponent_shape:
  assumes "parse_exponent r = Some e"
  shows "(r = [] \<and> e = 0) \<or> (2 \<le> length r \<and> (e < 0 \<longrightarrow> 3 \<le> length r))"
proof (cases r)
  case Nil
  then show ?thesis using assms by (simp add: parse_exponent_def)
next
  case (Cons c t)
  show ?thesis
  proof (cases t)
    case Nil
    then show ?thesis using assms Cons by (simp add: parse_exponent_def split: if_splits)
  next
    case (Cons d u)
    then show ?thesis
      using assms \<open>r = c # t\<close>
      by (cases u) (auto simp: parse_exponent_def Let_def is_digit_def split: if_splits)
  qed
qed

lemma scale10_nonneg: "0 \<le> v \<Longrightarrow> 0 \<le> scale10 v e"
  by (simp add: scale10_def)

lemma scale10_int: "v \<in> \<int> \<Longrightarrow> 0 \<le> e \<Longrightarrow> scale10 v e \<in> \<int>"
  by (simp add: scale10_def)

lemma scale10_down: "0 \<le> v \<Longrightarrow> e \<le> 0 \<Longrightarrow> scale10 v e \<le> v"
  by (auto simp: scale10_def divide_le_eq_1 intro!: divide_le_eq_1_pos [THEN iffD2] 
        simp: field_simps mult_le_cancel_left1)

lemma list_all_takeWhile: "list_all P (takeWhile P xs)"
  by (induction xs) auto

lemma parse_unsigned_Finite:
  assumes "parse_unsigned z = Finite y"
  obtains ip fp r2 e where
    "list_all is_digit ip" "list_all is_digit fp" "ip \<noteq> [] \<or> fp \<noteq> []"
    "parse_exponent r2 = Some e"
    "y = scale10 (real (digits_val ip) + real (digits_val fp) / 10 ^ length fp) e"
    "length ip + length fp + length r2 \<le> length z"
    "fp \<noteq> [] \<longrightarrow> length ip + 1 + length fp + length r2 \<le> length z"
proof -
  define ip where "ip = takeWhile is_digit z"
  define r1 where "r1 = dropWhile is_digit z"
  define dot where "dot \<longleftrightarrow> r1 \<noteq> [] \<and> hd r1 = CHR ''.''"
  define fp where "fp = (if dot then takeWhile is_digit (tl r1) else [])"
  define r2 where "r2 = (if dot then dropWhile is_digit (tl r1) else r1)"
  have z: "length z = length ip + length r1"
    unfolding ip_def r1_def by (metis length_append takeWhile_dropWhile_id)
  have r1: "length r1 = (if dot then 1 + length fp + length r2 else length fp + length r2)"
  proof (cases dot)
    case True
    then have "length r1 = 1 + length (tl r1)"
      by (cases r1) (simp_all add: dot_def)
    moreover have "length (tl r1) = length fp + length r2"
      using True unfolding fp_def r2_def by (metis length_append takeWhile_dropWhile_id)
    ultimately show ?thesis using True by simp
  next
    case False
    then show ?thesis by (simp add: fp_def r2_def)
  qed
  have fpdot: "fp \<noteq> [] \<longrightarrow> dot"
    by (simp add: fp_def)
  have unf: "parse_unsigned z =
      (if z = ''Infinity'' then PInf
       else if ip = [] \<and> fp = [] then NaN
       else (case parse_exponent r2 of
               None \<Rightarrow> NaN
             | Some e \<Rightarrow> Finite (scale10 (real (digits_val ip)
                                       + real (digits_val fp) / 10 ^ length fp) e)))"
    unfolding parse_unsigned_def Let_def ip_def r1_def dot_def fp_def r2_def by simp
  from assms obtain e where e: "parse_exponent r2 = Some e"
    and y: "y = scale10 (real (digits_val ip) + real (digits_val fp) / 10 ^ length fp) e"
    and ne: "ip \<noteq> [] \<or> fp \<noteq> []"
    unfolding unf by (auto split: if_splits option.splits)
  show ?thesis
  proof (rule that [of ip fp r2 e])
    show "list_all is_digit ip" "list_all is_digit fp"
      by (simp_all add: ip_def fp_def list_all_takeWhile)
    show "ip \<noteq> [] \<or> fp \<noteq> []" by (rule ne)
    show "parse_exponent r2 = Some e" by (rule e)
    show "y = scale10 (real (digits_val ip) + real (digits_val fp) / 10 ^ length fp) e" by (rule y)
    show "length ip + length fp + length r2 \<le> length z"
      using z r1 by (simp split: if_splits)
    show "fp \<noteq> [] \<longrightarrow> length ip + 1 + length fp + length r2 \<le> length z"
      using z r1 fpdot by (simp split: if_splits)
  qed
qed

lemma parse_unsigned_nonneg: "parse_unsigned z = Finite y \<Longrightarrow> 0 \<le> y"
  by (erule parse_unsigned_Finite) (simp add: scale10_nonneg)

text \<open>A text of at most four characters that reads as a number of at least 1900 reads as
  an integer.\<close>

lemma parse_unsigned_year_int:
  assumes "length z \<le> 4" "parse_unsigned z = Finite y" "1900 \<le> y"
  shows "y \<in> \<int>"
proof -
  from assms(2) obtain ip fp r2 e where
    ip: "list_all is_digit ip" and fp: "list_all is_digit fp" and ne: "ip \<noteq> [] \<or> fp \<noteq> []"
    and e: "parse_exponent r2 = Some e"
    and y: "y = scale10 (real (digits_val ip) + real (digits_val fp) / 10 ^ length fp) e"
    and len: "length ip + length fp + length r2 \<le> length z"
    and lendot: "fp \<noteq> [] \<longrightarrow> length ip + 1 + length fp + length r2 \<le> length z"
    by (rule parse_unsigned_Finite)
  let ?I = "digits_val ip" and ?F = "digits_val fp"
  let ?m = "real ?I + real ?F / 10 ^ length fp"
  have I: "?I < 10 ^ length ip" and F: "?F < 10 ^ length fp"
    using ip fp by (simp_all add: digits_val_bound)
  have "real ?F / 10 ^ length fp < 1"
    using F by (simp add: divide_less_eq)
  then have m_lt: "?m < real ?I + 1" and m_ge: "0 \<le> ?m"
    by simp_all
  from parse_exponent_shape [OF e]
  consider (none) "r2 = []" "e = 0" | (some) "2 \<le> length r2" "e < 0 \<longrightarrow> 3 \<le> length r2"
    by blast
  then show ?thesis
  proof cases
    case none
    show ?thesis
    proof (cases "fp = []")
      case True
      then show ?thesis
        using y none by (simp add: scale10_def digits_val_Nil)
    next
      case False
      then have "length ip \<le> 2"
        using lendot assms(1) by (cases fp) auto
      then have "(10::nat) ^ length ip \<le> 10 ^ 2"
        by (intro power_increasing) simp_all
      then have "real ?I < 100"
        using I by simp
      moreover have "y = ?m"
        using y none by (simp add: scale10_def)
      ultimately have "y < 1900"
        using m_lt by linarith
      then show ?thesis
        using assms(3) by simp
    qed
  next
    case some
    have short: "length ip + length fp \<le> 2"
      using len some(1) assms(1) by simp
    show ?thesis
    proof (cases "e < 0")
      case True
      then have "3 \<le> length r2"
        using some(2) by simp
      have "fp = []"
      proof (rule ccontr)
        assume "fp \<noteq> []"
        then have "length ip + 1 + length fp + length r2 \<le> 4" "0 < length fp"
          using lendot assms(1) by simp_all
        then show False
          using \<open>3 \<le> length r2\<close> by simp
      qed
      have "length ip \<le> 1"
        using len \<open>3 \<le> length r2\<close> assms(1) by simp
      then have "(10::nat) ^ length ip \<le> 10 ^ 1"
        by (intro power_increasing) simp_all
      then have "real ?I < 10"
        using I by simp
      moreover have "y \<le> ?m"
        unfolding y using m_ge True by (intro scale10_down) simp_all
      ultimately have "y < 1900"
        using m_lt by linarith
      then show ?thesis
        using assms(3) by simp
    next
      case False
      then have e0: "0 \<le> e" by simp
      show ?thesis
      proof (cases "fp = []")
        case True
        then have "?m \<in> \<int>"
          by (simp add: digits_val_Nil)
        then show ?thesis
          unfolding y using e0 by (rule scale10_int)
      next
        case fpne: False
        then have "length ip + 1 + length fp + length r2 \<le> 4"
          using lendot assms(1) by simp
        moreover have "0 < length fp"
          using fpne by simp
        ultimately have lf: "length fp = 1" and "length ip = 0"
          using some(1) by linarith+
        then have li: "ip = []"
          by simp
        have m: "?m = real ?F / 10"
          unfolding li lf by (simp add: digits_val_Nil)
        show ?thesis
        proof (cases "e = 0")
          case True
          have "real ?F < 10"
            using F lf by simp
          moreover have "y = real ?F / 10"
            unfolding y m using True by (simp add: scale10_def)
          ultimately have "y < 1"
            by simp
          then show ?thesis
            using assms(3) by simp
        next
          case False
          then obtain k where k: "nat e = Suc k"
            using e0 by (cases "nat e") auto
          have "y = real ?F * 10 ^ k"
            unfolding y m using e0 k by (simp add: scale10_def)
          then show ?thesis
            by simp
        qed
      qed
    qed
  qed
qed

lemma length_trim: "length (trim t) \<le> length t"
proof -
  have "length (trim t) \<le> length (dropWhile is_ws t)"
    unfolding trim_def trim_end_def trim_start_def
    using length_dropWhile_le [of is_ws "rev (dropWhile is_ws t)"] by simp
  also have "\<dots> \<le> length t"
    by (rule length_dropWhile_le)
  finally show ?thesis .
qed

lemma parse_radix_int: "parse_radix b ds = Finite y \<Longrightarrow> y \<in> \<int>"
  by (auto simp: parse_radix_def split: if_splits)

lemma js_neg_Finite: "js_neg n = Finite y \<Longrightarrow> n = Finite (- y)"
  by (cases n) auto

lemma str_to_number_year_int:
  assumes "length t \<le> 4" "str_to_number t = Finite y" "1900 \<le> y"
  shows "y \<in> \<int>"
proof (cases "trim t")
  case Nil
  then show ?thesis
    using assms(2,3) by (simp add: str_to_number_def)
next
  case (Cons c w)
  have lw: "length (c # w) \<le> 4"
    using length_trim [of t] assms(1) unfolding Cons by simp
  consider (radix) b ds where "parse_radix b ds = Finite y"
    | (minus) "js_neg (parse_unsigned w) = Finite y"
    | (plus) "parse_unsigned w = Finite y"
    | (plain) "parse_unsigned (c # w) = Finite y"
    using assms(2) unfolding str_to_number_def Let_def Cons list.case
    by (auto split: if_splits)
  then show ?thesis
  proof cases
    case radix
    then show ?thesis by (rule parse_radix_int)
  next
    case minus
    then have "parse_unsigned w = Finite (- y)"
      by (rule js_neg_Finite)
    then have "0 \<le> - y"
      by (rule parse_unsigned_nonneg)
    then show ?thesis
      using assms(3) by simp
  next
    case plus
    moreover have "length w \<le> 4"
      using lw by simp
    ultimately show ?thesis
      using assms(3) by (intro parse_unsigned_year_int [of w])
  next
    case plain
    then show ?thesis
      using lw assms(3) by (intro parse_unsigned_year_int [of "c # w"])
  qed
qed

lemma year_is_integer:
  assumes "field (preprocessRow cy r) ''release_year'' = Num (Finite y)"
  shows "y \<in> \<int>"
proof -
  from assms obtain s where "4 \<le> length s" "str_to_number (take 4 s) = Finite y" "1900 \<le> y"
    unfolding field_release_year year_char
    by (auto split: option.splits jsnum.splits if_splits)
  moreover have "length (take 4 s) \<le> 4"
    by simp
  ultimately show ?thesis
    by (intro str_to_number_year_int [of "take 4 s"])
qed

section \<open>The release year\<close>

text \<open>
  C6, as stated, fails: the four characters are read as \<^verbatim>\<open>Number\<close> reads them, not as an
  integer. The date text 19e2-01-01 does not start with four digits, and its release year
  is 1900.
\<close>

theorem release_year_counterexample:
  "field (preprocessRow 2026 [''album_release_date'' \<mapsto> ''19e2-01-01'']) ''release_year''
     = Num (Finite 1900)
   \<and> \<not> list_all is_digit (take 4 ''19e2-01-01'')"
  unfolding field_release_year
  by (simp add: year_def yearRaw_def ge_num_def le_num_def is_digit_def number_evals)

text \<open>
  C6, amended. For every raw row the release year is the number that \<^verbatim>\<open>Number\<close> reads
  from the first four characters of the date text, kept only when it is finite and between
  1900 and the current year plus one; in every other case the property is undefined, never
  zero and never null. A year that is kept is an integer, and four decimal digits are read
  as the integer they write. With the current year at least 2020 the date 2021-05-01 gives
  2021; 99 and 1899-01-01 give no year; 2999-01-01 gives no year while the current year is
  below 2998.
\<close>

theorem release_year_rule:
  "field (preprocessRow cy r) ''release_year''
     = (case r ''album_release_date'' of
          None \<Rightarrow> Undefined
        | Some s \<Rightarrow>
            (case (if 4 \<le> length s then str_to_number (take 4 s) else NaN) of
               Finite y \<Rightarrow>
                 if 1900 \<le> y \<and> y \<le> real_of_int (cy + 1) then Num (Finite y) else Undefined
             | _ \<Rightarrow> Undefined))
   \<and> field (preprocessRow cy r) ''release_year'' \<noteq> Num (Finite 0)
   \<and> field (preprocessRow cy r) ''release_year'' \<noteq> Null
   \<and> (\<forall>y. field (preprocessRow cy r) ''release_year'' = Num (Finite y) \<longrightarrow> y \<in> \<int>)
   \<and> (r ''album_release_date'' = Some d \<longrightarrow> 4 \<le> length d \<longrightarrow> list_all is_digit (take 4 d) \<longrightarrow>
        field (preprocessRow cy r) ''release_year''
          = (if 1900 \<le> digits_val (take 4 d) \<and> int (digits_val (take 4 d)) \<le> cy + 1
             then Num (Finite (real (digits_val (take 4 d)))) else Undefined))
   \<and> (2020 \<le> cy \<longrightarrow>
        field (preprocessRow cy [''album_release_date'' \<mapsto> ''2021-05-01'']) ''release_year''
          = Num (Finite 2021))
   \<and> field (preprocessRow cy [''album_release_date'' \<mapsto> ''99'']) ''release_year'' = Undefined
   \<and> field (preprocessRow cy [''album_release_date'' \<mapsto> ''1899-01-01'']) ''release_year''
       = Undefined
   \<and> (cy < 2998 \<longrightarrow>
        field (preprocessRow cy [''album_release_date'' \<mapsto> ''2999-01-01'']) ''release_year''
          = Undefined)"
proof -
  have c1: "field (preprocessRow cy r) ''release_year''
     = (case r ''album_release_date'' of
          None \<Rightarrow> Undefined
        | Some s \<Rightarrow>
            (case (if 4 \<le> length s then str_to_number (take 4 s) else NaN) of
               Finite y \<Rightarrow>
                 if 1900 \<le> y \<and> y \<le> real_of_int (cy + 1) then Num (Finite y) else Undefined
             | _ \<Rightarrow> Undefined))" for r
    by (simp only: field_release_year year_char)
  have c2: "field (preprocessRow cy r) ''release_year'' \<noteq> Num (Finite 0)"
    unfolding c1 by (auto split: option.splits jsnum.splits)
  have c3: "field (preprocessRow cy r) ''release_year'' \<noteq> Null"
    unfolding c1 by (auto split: option.splits jsnum.splits)
  have c4: "field (preprocessRow cy r) ''release_year''
          = (if 1900 \<le> digits_val (take 4 d) \<and> int (digits_val (take 4 d)) \<le> cy + 1
             then Num (Finite (real (digits_val (take 4 d)))) else Undefined)"
    if "r ''album_release_date'' = Some d" "4 \<le> length d" "list_all is_digit (take 4 d)"
  proof -
    have "real (digits_val (take 4 d)) \<le> real_of_int (cy + 1)
          \<longleftrightarrow> int (digits_val (take 4 d)) \<le> cy + 1"
      by linarith
    then show ?thesis
      unfolding c1 using that by (simp add: digits4)
  qed
  have e1: "field (preprocessRow cy [''album_release_date'' \<mapsto> ''2021-05-01'']) ''release_year''
          = Num (Finite 2021)" if "2020 \<le> cy"
    unfolding c1 using that by (simp add: number_evals)
  have e2: "field (preprocessRow cy [''album_release_date'' \<mapsto> ''99'']) ''release_year'' = Undefined"
    unfolding c1 by simp
  have e3: "field (preprocessRow cy [''album_release_date'' \<mapsto> ''1899-01-01'']) ''release_year''
       = Undefined"
    unfolding c1 by (simp add: number_evals)
  have e4: "field (preprocessRow cy [''album_release_date'' \<mapsto> ''2999-01-01'']) ''release_year''
          = Undefined" if "cy < 2998"
    unfolding c1 using that by (simp add: number_evals)
  have ci: "\<forall>y. field (preprocessRow cy r) ''release_year'' = Num (Finite y) \<longrightarrow> y \<in> \<int>"
    using year_is_integer by blast
  show ?thesis
    using c1 [of r] c2 c3 ci c4 e1 e2 e3 e4 by blast
qed

theorem release_year_rule_witness:
  "field (preprocessRow 2026 [''album_release_date'' \<mapsto> ''2021-05-01'']) ''release_year''
     = Num (Finite 2021)
   \<and> field (preprocessRow 2026 [''album_release_date'' \<mapsto> ''2999-01-01'']) ''release_year''
     = Undefined
   \<and> digits_val (take 4 ''2021-05-01'') = 2021"
proof -
  have d: "list_all is_digit (take 4 ''2021-05-01'')" "digits_val (take 4 ''2021-05-01'') = 2021"
    by (simp_all add: is_digit_def digits_val_def digit_val_def)
  show ?thesis
    using release_year_rule [of 2026 "[''album_release_date'' \<mapsto> ''2021-05-01'']" "''2021-05-01''"] d
    by (simp add: number_evals)
qed

section \<open>The follower logarithm\<close>

lemma followers_finite: "\<exists>f. followers r = Finite f"
  by (cases "Number (field (raw_object r) ''artist_followers'')")
     (simp_all add: followers_def toNumber_def)

lemma followers_absent: "r ''artist_followers'' = None \<Longrightarrow> followers r = Finite 0"
  by (simp add: followers_def toNumber_def field_def raw_object_def)

text \<open>
  C4, as stated, fails: a follower text of -5 is coerced to the finite number -5, whose
  logarithm after adding one is NaN, and -0.5 gives a negative logarithm.
\<close>

theorem followers_log_counterexample:
  "field (preprocessRow 2026 [''artist_followers'' \<mapsto> ''-5'']) ''followers_log'' = Num NaN
   \<and> field (preprocessRow 2026 [''artist_followers'' \<mapsto> ''-0.5'']) ''followers_log''
       = Num (Finite (log 10 (1 / 2)))
   \<and> log 10 (1 / 2) < (0 :: real)"
  unfolding field_followers_log
  by (simp add: followersLog_def followers_def toNumber_def field_def raw_object_def number_evals)

text \<open>
  C4, amended. For every raw row the followers_log property is \<^verbatim>\<open>Math.log10\<close> of the
  coerced follower count plus one, and the coerced count is always a finite number (0
  when the column is absent or not numeric). When the count is not negative, and so
  when the column is absent, followers_log is the finite number log10(followers + 1),
  which is at least 0.
\<close>

theorem followers_log_rule:
  "field (preprocessRow cy r) ''followers_log''
     = Num (log10 (js_add (toNumber (field (raw_object r) ''artist_followers'') (Finite 0)) (Finite 1)))
   \<and> (\<exists>f. toNumber (field (raw_object r) ''artist_followers'') (Finite 0) = Finite f)
   \<and> (r ''artist_followers'' = None \<longrightarrow>
        field (preprocessRow cy r) ''followers_log'' = Num (Finite 0))
   \<and> (toNumber (field (raw_object r) ''artist_followers'') (Finite 0) = Finite f \<longrightarrow> 0 \<le> f \<longrightarrow>
        field (preprocessRow cy r) ''followers_log'' = Num (Finite (log 10 (f + 1)))
        \<and> 0 \<le> log 10 (f + 1))"
proof -
  have a: "field (preprocessRow cy r) ''followers_log''
     = Num (log10 (js_add (toNumber (field (raw_object r) ''artist_followers'') (Finite 0)) (Finite 1)))"
    by (simp add: field_followers_log followersLog_def followers_def)
  have b: "\<exists>f. toNumber (field (raw_object r) ''artist_followers'') (Finite 0) = Finite f"
    using followers_finite [of r] by (simp add: followers_def)
  have c: "field (preprocessRow cy r) ''followers_log'' = Num (Finite 0)"
    if "r ''artist_followers'' = None"
    using that followers_absent [of r] by (simp add: a followers_def)
  have d: "field (preprocessRow cy r) ''followers_log'' = Num (Finite (log 10 (f + 1)))
        \<and> 0 \<le> log 10 (f + 1)"
    if "toNumber (field (raw_object r) ''artist_followers'') (Finite 0) = Finite f" "0 \<le> f"
    using that by (simp add: a)
  show ?thesis
    using a b c d by blast
qed

theorem followers_log_rule_witness:
  "field (preprocessRow 2026 [''artist_followers'' \<mapsto> ''999'']) ''followers_log'' = Num (Finite 3)
   \<and> field (preprocessRow 2026 Map.empty) ''followers_log'' = Num (Finite 0)"
proof -
  have f: "toNumber (field (raw_object [''artist_followers'' \<mapsto> ''999'']) ''artist_followers'') (Finite 0)
           = Finite 999"
    by (simp add: toNumber_def field_def raw_object_def number_evals)
  have l: "log 10 (999 + 1) = (3 :: real)"
    using log_pow_cancel [of 10 3] by simp
  have "field (preprocessRow 2026 [''artist_followers'' \<mapsto> ''999'']) ''followers_log''
          = Num (Finite 3)"
    using followers_log_rule [of 2026 "[''artist_followers'' \<mapsto> ''999'']" 999] f l
    by simp
  moreover have "field (preprocessRow 2026 Map.empty) ''followers_log'' = Num (Finite 0)"
    using followers_log_rule [of 2026 Map.empty 0] by blast
  ultimately show ?thesis
    by blast
qed

section \<open>The selection state\<close>

text \<open>
  C7. For every selection state and every pair of arguments, \<^verbatim>\<open>onSelect\<close> clears both
  the year and the genre when the incoming pair equals the selected pair, and otherwise
  sets both to the incoming pair in one step. The new pair is always either the cleared
  pair or the incoming pair, so the two are set or cleared together; the hovered track
  is untouched. Selecting (2020, pop) twice returns to no selection; selecting
  (2020, pop) and then (2021, pop) gives (2021, pop).
\<close>

theorem onSelect_toggle:
  "onSelect s yr genre
     = (if (yr, genre) = (selectedYear s, selectedGenre s)
        then s\<lparr>selectedYear := None, selectedGenre := None\<rparr>
        else s\<lparr>selectedYear := yr, selectedGenre := genre\<rparr>)
   \<and> ((selectedYear (onSelect s yr genre), selectedGenre (onSelect s yr genre)) = (None, None)
      \<or> (selectedYear (onSelect s yr genre), selectedGenre (onSelect s yr genre)) = (yr, genre))
   \<and> selectedTrackId (onSelect s yr genre) = selectedTrackId s
   \<and> (((yr = None) = (genre = None)) \<longrightarrow>
        ((selectedYear (onSelect s yr genre) = None) = (selectedGenre (onSelect s yr genre) = None)))
   \<and> onSelect (onSelect initial_selection (Some 2020) (Some ''pop'')) (Some 2020) (Some ''pop'')
       = initial_selection
   \<and> onSelect (onSelect initial_selection (Some 2020) (Some ''pop'')) (Some 2021) (Some ''pop'')
       = initial_selection\<lparr>selectedYear := Some 2021, selectedGenre := Some ''pop''\<rparr>"
  by (auto simp: onSelect_def initial_selection_def Let_def)

theorem onSelect_toggle_witness:
  "onSelect \<lparr>selectedYear = Some 2020, selectedGenre = Some ''pop'', selectedTrackId = Some ''t1''\<rparr>
     (Some 2020) (Some ''rock'')
   = \<lparr>selectedYear = Some 2020, selectedGenre = Some ''rock'', selectedTrackId = Some ''t1''\<rparr>
   \<and> onSelect \<lparr>selectedYear = Some 2020, selectedGenre = Some ''rock'', selectedTrackId = Some ''t1''\<rparr>
     (Some 2020) (Some ''rock'')
   = \<lparr>selectedYear = None, selectedGenre = None, selectedTrackId = Some ''t1''\<rparr>"
  using onSelect_toggle [of "\<lparr>selectedYear = Some 2020, selectedGenre = Some ''pop'', selectedTrackId = Some ''t1''\<rparr>" "Some 2020" "Some ''rock''"]
    onSelect_toggle [of "\<lparr>selectedYear = Some 2020, selectedGenre = Some ''rock'', selectedTrackId = Some ''t1''\<rparr>" "Some 2020" "Some ''rock''"]
  by simp

section \<open>The merge by track id\<close>

lemma map_of_jsmap_set: "map_of (jsmap_set m k v) = (map_of m)(k \<mapsto> v)"
  by (induction m k v rule: jsmap_set.induct) (auto simp: fun_eq_iff)

lemma keys_jsmap_set:
  "map fst (jsmap_set m k v) = (if k \<in> fst ` set m then map fst m else map fst m @ [k])"
  by (induction m k v rule: jsmap_set.induct) (auto simp: image_iff)

lemma distinct_jsmap_set: "distinct (map fst m) \<Longrightarrow> distinct (map fst (jsmap_set m k v))"
  by (simp add: keys_jsmap_set)

lemma jsmap_get_Nil: "jsmap_get [] k = None"
  by (simp add: jsmap_get_def)

lemma get_seed_step:
  "jsmap_get (seed_step m b) k = (if track_key b = k then Some b else jsmap_get m k)"
  by (simp add: seed_step_def jsmap_get_def map_of_jsmap_set track_key_def)

lemma get_merge_step:
  "jsmap_get (merge_step m a) k
   = (if track_key a = k then Some (entry_of m k ++ a) else jsmap_get m k)"
  by (auto simp add: merge_step_def jsmap_get_def map_of_jsmap_set track_key_def entry_of_def)

lemma seed_lookup:
  "jsmap_get (foldl seed_step m B) k
   = (case filter (\<lambda>r. track_key r = k) B of [] \<Rightarrow> jsmap_get m k | rs \<Rightarrow> Some (last rs))"
proof (induction B arbitrary: m)
  case Nil
  then show ?case by simp
next
  case (Cons b B)
  show ?case
    by (simp add: Cons.IH get_seed_step split: list.splits)
qed

lemma merge_lookup:
  "jsmap_get (foldl merge_step m A) k
   = (case filter (\<lambda>r. track_key r = k) A of
        [] \<Rightarrow> jsmap_get m k
      | rs \<Rightarrow> Some (foldl (++) (entry_of m k) rs))"
proof (induction A arbitrary: m)
  case Nil
  then show ?case by simp
next
  case (Cons a A)
  show ?case
    by (simp add: Cons.IH get_merge_step entry_of_def split: list.splits)
qed

lemma seed_distinct: "distinct (map fst m) \<Longrightarrow> distinct (map fst (foldl seed_step m B))"
  by (induction B arbitrary: m) (auto simp: seed_step_def distinct_jsmap_set)

lemma merge_distinct: "distinct (map fst m) \<Longrightarrow> distinct (map fst (foldl merge_step m A))"
  by (induction A arbitrary: m) (auto simp: merge_step_def distinct_jsmap_set)

lemma merge_get:
  "jsmap_get (merge_by_track_id A B) k
   = (case filter (\<lambda>r. track_key r = k) A of
        [] \<Rightarrow> (case filter (\<lambda>r. track_key r = k) B of [] \<Rightarrow> None | rs \<Rightarrow> Some (last rs))
      | rs \<Rightarrow> Some (foldl (++)
                 (case filter (\<lambda>r. track_key r = k) B of [] \<Rightarrow> Map.empty | bs \<Rightarrow> last bs) rs))"
  by (simp add: merge_by_track_id_def merge_lookup seed_lookup entry_of_def jsmap_get_Nil
           split: list.splits)

lemma merge_keys_distinct: "distinct (map fst (merge_by_track_id A B))"
  by (simp add: merge_by_track_id_def merge_distinct seed_distinct)

section \<open>The end-to-end scenario\<close>

lemma row_track_id: "preprocessRow cy r ''track_id'' = map_option Str (r ''track_id'')"
  by (simp add: preprocessRow_def Let_def raw_object_def)

lemma row_artist_followers: "preprocessRow cy r ''artist_followers'' = Some (Num (followers r))"
  by (simp add: preprocessRow_def Let_def)

lemma row_followers_log: "preprocessRow cy r ''followers_log'' = Some (Num (followersLog r))"
  by (simp add: preprocessRow_def Let_def)

lemma row_artist_popularity:
  "preprocessRow cy r ''artist_popularity''
   = Some (Num (toNumber (field (raw_object r) ''artist_popularity'') (Finite 0)))"
  by (simp add: preprocessRow_def Let_def)

lemma track_key_row:
  "track_key (preprocessRow cy r) = (case r ''track_id'' of None \<Rightarrow> Undefined | Some s \<Rightarrow> Str s)"
  by (simp add: track_key_def field_def row_track_id split: option.splits)

lemma foldl_add_last:
  "rs \<noteq> [] \<Longrightarrow> last rs f = Some v \<Longrightarrow> foldl (++) base rs f = Some v"
  by (induction rs rule: rev_induct) (simp_all add: map_add_def)

lemma jsmap_set_subset: "set (jsmap_set m k v) \<subseteq> insert (k, v) (set m)"
  by (induction m k v rule: jsmap_set.induct) auto

lemma keyed_seed_step: "keyed m \<Longrightarrow> keyed (seed_step m r)"
  using jsmap_set_subset [of m "field r ''track_id''" r]
  by (auto simp: keyed_def seed_step_def track_key_def)

lemma track_key_add:
  "track_key (b ++ r) = (if r ''track_id'' = None then track_key b else track_key r)"
  by (auto simp: track_key_def field_def map_add_def split: option.splits)

lemma keyed_entry: "keyed m \<Longrightarrow> jsmap_get m k = Some b \<Longrightarrow> track_key b = k"
  by (auto simp: keyed_def jsmap_get_def dest!: map_of_SomeD)

lemma keyed_merge_step:
  assumes "keyed m"
  shows "keyed (merge_step m r)"
proof -
  have "track_key (entry_of m (track_key r) ++ r) = track_key r"
  proof (cases "r ''track_id''")
    case None
    then have u: "track_key r = Undefined"
      by (simp add: track_key_def field_def)
    have "track_key (entry_of m Undefined) = Undefined"
      using keyed_entry [OF assms, of Undefined]
      by (cases "jsmap_get m Undefined") (simp_all add: entry_of_def track_key_def field_def)
    then show ?thesis
      using None u by (simp add: track_key_add)
  next
    case (Some v)
    then show ?thesis
      by (simp add: track_key_add)
  qed
  then show ?thesis
    using assms jsmap_set_subset [of m "track_key r" "entry_of m (track_key r) ++ r"]
    by (auto simp: keyed_def merge_step_def entry_of_def track_key_def)
qed

lemma keyed_merge: "keyed (merge_by_track_id A B)"
proof -
  have s: "keyed m \<Longrightarrow> keyed (foldl seed_step m B)" for m
    by (induction B arbitrary: m) (simp_all add: keyed_seed_step)
  have m: "keyed m \<Longrightarrow> keyed (foldl merge_step m A)" for m
    by (induction A arbitrary: m) (simp_all add: keyed_merge_step)
  have "keyed []"
    by (simp add: keyed_def)
  then show ?thesis
    unfolding merge_by_track_id_def by (intro m s)
qed

text \<open>The dataset holds exactly one record for each key of the merged map.\<close>

lemma load_record_unique:
  assumes "jsmap_get (merge_by_track_id A B) k = Some m"
  shows "m \<in> set (map snd (merge_by_track_id A B))
         \<and> (\<forall>d\<in>set (map snd (merge_by_track_id A B)). track_key d = k \<longrightarrow> d = m)"
proof -
  have "(k, m) \<in> set (merge_by_track_id A B)"
    using assms by (auto simp: jsmap_get_def dest: map_of_SomeD)
  then have 1: "m \<in> set (map snd (merge_by_track_id A B))"
    by force
  have "d = m" if d: "d \<in> set (map snd (merge_by_track_id A B))" "track_key d = k" for d
  proof -
    obtain k' where "(k', d) \<in> set (merge_by_track_id A B)"
      using d(1) by auto
    moreover from this have "k' = k"
      using keyed_merge [of A B] d(2) by (auto simp: keyed_def)
    ultimately have "jsmap_get (merge_by_track_id A B) k = Some d"
      using merge_keys_distinct [of A B] by (simp add: jsmap_get_def)
    then show ?thesis
      using assms by simp
  qed
  then show ?thesis
    using 1 by blast
qed

lemma followers_999: "r ''artist_followers'' = Some ''999'' \<Longrightarrow> followers r = Finite 999"
  by (simp add: followers_def toNumber_def field_def raw_object_def number_evals)

lemma followersLog_999: "r ''artist_followers'' = Some ''999'' \<Longrightarrow> followersLog r = Finite 3"
  using log_pow_cancel [of 10 3] by (simp add: followersLog_def followers_999)

lemma merged_fields_from_last:
  assumes "filter (\<lambda>d. track_key d = k) A \<noteq> []"
  shows "\<exists>m. jsmap_get (merge_by_track_id A B) k = Some m
             \<and> (\<forall>f v. last (filter (\<lambda>d. track_key d = k) A) f = Some v \<longrightarrow> m f = Some v)"
  using assms by (auto simp: merge_get foldl_add_last split: list.splits)

text \<open>
  C1, amended. When the only row of source A for track t1 gives the follower text 999,
  then, whatever source B holds for t1, the dataset has exactly one record for t1, with
  artist_followers 999 and followers_log log10(999 + 1) = 3.
\<close>

theorem load_merged_t1:
  assumes "ra \<in> set a"
    and "\<forall>r\<in>set a. r ''track_id'' = Some ''t1'' \<longrightarrow> r = ra"
    and "ra ''track_id'' = Some ''t1''"
    and "ra ''artist_followers'' = Some ''999''"
  shows "\<exists>m. m \<in> set (load cy a b)
             \<and> (\<forall>d\<in>set (load cy a b). field d ''track_id'' = Str ''t1'' \<longrightarrow> d = m)
             \<and> field m ''artist_followers'' = Num (Finite 999)
             \<and> field m ''followers_log'' = Num (Finite 3)"
proof -
  let ?A = "preprocessTracks cy a" and ?B = "preprocessTracks cy b"
  let ?F = "filter (\<lambda>r. r ''track_id'' = Some ''t1'') a"
  have key: "track_key (preprocessRow cy r) = Str ''t1'' \<longleftrightarrow> r ''track_id'' = Some ''t1''" for r
    by (simp add: track_key_row split: option.splits)
  have F: "filter (\<lambda>d. track_key d = Str ''t1'') ?A = map (preprocessRow cy) ?F"
    by (simp add: preprocessTracks_def filter_map comp_def key)
  have ne: "?F \<noteq> []"
    using assms(1,3) by (auto simp: filter_empty_conv)
  then have "last ?F \<in> set ?F"
    by (rule last_in_set)
  then have "last ?F = ra"
    using assms(2) by auto
  then have l: "last (filter (\<lambda>d. track_key d = Str ''t1'') ?A) = preprocessRow cy ra"
    using ne by (simp add: F last_map)
  have "filter (\<lambda>d. track_key d = Str ''t1'') ?A \<noteq> []"
    using ne by (simp add: F)
  from merged_fields_from_last [OF this, of ?B]
  obtain m where m: "jsmap_get (merge_by_track_id ?A ?B) (Str ''t1'') = Some m"
    and fields: "\<And>f v. preprocessRow cy ra f = Some v \<Longrightarrow> m f = Some v"
    unfolding l by blast
  have 1: "field m ''artist_followers'' = Num (Finite 999)"
    using fields [OF row_artist_followers] assms(4) by (simp add: field_def followers_999)
  have 2: "field m ''followers_log'' = Num (Finite 3)"
    using fields [OF row_followers_log] assms(4) by (simp add: field_def followersLog_999)
  have 5: "m \<in> set (load cy a b)
      \<and> (\<forall>d\<in>set (load cy a b). field d ''track_id'' = Str ''t1'' \<longrightarrow> d = m)"
    using load_record_unique [OF m] by (simp add: load_def track_key_def)
  from 5 have m_in: "m \<in> set (load cy a b)"
    and m_only: "\<forall>d\<in>set (load cy a b). field d ''track_id'' = Str ''t1'' \<longrightarrow> d = m"
    by simp_all
  show ?thesis
    by (intro exI [of _ m] conjI m_in m_only 1 2)
qed

theorem load_merged_t1_witness:
  "\<exists>m. m \<in> set (load 2026 source_A source_B)
       \<and> field m ''artist_followers'' = Num (Finite 999)
       \<and> field m ''followers_log'' = Num (Finite 3)"
proof -
  have "\<exists>m. m \<in> set (load 2026 source_A source_B)
             \<and> (\<forall>d\<in>set (load 2026 source_A source_B). field d ''track_id'' = Str ''t1'' \<longrightarrow> d = m)
             \<and> field m ''artist_followers'' = Num (Finite 999)
             \<and> field m ''followers_log'' = Num (Finite 3)"
    by (rule load_merged_t1
          [where ra = "[''track_id'' \<mapsto> ''t1'', ''artist_followers'' \<mapsto> ''999'']"])
       (simp_all add: source_A_def)
  then show ?thesis
    by auto
qed

text \<open>
  C1, as stated, fails: with A holding only the followers of t1 and B only its artist
  popularity 40, the merged record has followers_log 3, which is above log10(999), and
  artist popularity 0.
\<close>

theorem load_merged_t1_counterexample:
  "length (load 2026 source_A source_B) = 1
   \<and> field (hd (load 2026 source_A source_B)) ''track_id'' = Str ''t1''
   \<and> field (hd (load 2026 source_A source_B)) ''artist_followers'' = Num (Finite 999)
   \<and> field (hd (load 2026 source_A source_B)) ''followers_log'' = Num (Finite 3)
   \<and> log 10 999 < (3 :: real)
   \<and> field (hd (load 2026 source_A source_B)) ''artist_popularity'' = Num (Finite 0)
   \<and> field (hd (load 2026 source_A source_B)) ''artist_popularity'' \<noteq> Num (Finite 40)"
proof -
  let ?ra = "[''track_id'' \<mapsto> ''t1'', ''artist_followers'' \<mapsto> ''999'']"
  let ?rb = "[''track_id'' \<mapsto> ''t1'', ''artist_popularity'' \<mapsto> ''40'']"
  have l: "load 2026 source_A source_B = [preprocessRow 2026 ?rb ++ preprocessRow 2026 ?ra]"
    by (simp add: load_def source_A_def source_B_def preprocessTracks_def merge_by_track_id_def
          seed_step_def merge_step_def jsmap_get_def track_key_def [symmetric] track_key_row)
  have "log 10 999 < log 10 (1000 :: real)"
    by (subst log_less_cancel_iff) simp_all
  moreover have "log 10 (1000 :: real) = 3"
    using log_pow_cancel [of 10 3] by simp
  ultimately have g: "log 10 999 < (3 :: real)"
    by simp
  have "length [preprocessRow 2026 ?rb ++ preprocessRow 2026 ?ra] = 1
   \<and> field (hd [preprocessRow 2026 ?rb ++ preprocessRow 2026 ?ra]) ''track_id'' = Str ''t1''
   \<and> field (hd [preprocessRow 2026 ?rb ++ preprocessRow 2026 ?ra]) ''artist_followers'' = Num (Finite 999)
   \<and> field (hd [preprocessRow 2026 ?rb ++ preprocessRow 2026 ?ra]) ''followers_log'' = Num (Finite 3)
   \<and> field (hd [preprocessRow 2026 ?rb ++ preprocessRow 2026 ?ra]) ''artist_popularity'' = Num (Finite 0)
   \<and> field (hd [preprocessRow 2026 ?rb ++ preprocessRow 2026 ?ra]) ''artist_popularity'' \<noteq> Num (Finite 40)"
    by (simp add: field_def map_add_def row_track_id row_artist_followers row_followers_log
          row_artist_popularity followers_999 followersLog_999 toNumber_def raw_object_def)
  then show ?thesis
    unfolding l using g by simp
qed

section \<open>The merge on normalised rows\<close>

lemma row_release_year: "preprocessRow cy r ''release_year'' = Some (year cy r)"
  by (simp add: preprocessRow_def Let_def)

lemma year_99: "year cy [''track_id'' \<mapsto> ''id1'', ''album_release_date'' \<mapsto> ''99''] = Undefined"
  by (simp add: year_def yearRaw_def)

lemma year_2021:
  "year 2026 [''track_id'' \<mapsto> ''id1'', ''album_release_date'' \<mapsto> ''2021-05-01'']
   = Num (Finite 2021)"
  by (simp add: year_def yearRaw_def ge_num_def le_num_def number_evals)

text \<open>
  C3. The merge spreads the record of A over the record of B, and a property that A's
  record holds with the value undefined counts as present. On rows without such
  properties the merge does what the claim says: A = {id1: {popularity: 80}} and
  B = {id1: {popularity: 50, name: X}} give {popularity: 80, name: X}. But the rows the
  loader merges are normalised rows, which hold release_year even when there is no year:
  with the date 99 in A and 2021-05-01 in B for the same track, B's record has the release
  year 2021, A's record has none, and the merged record has none.
\<close>

theorem merge_loses_release_year:
  "jsmap_get
     (merge_by_track_id
        [[''track_id'' \<mapsto> Str ''id1'', ''popularity'' \<mapsto> Num (Finite 80)]]
        [[''track_id'' \<mapsto> Str ''id1'', ''popularity'' \<mapsto> Num (Finite 50), ''name'' \<mapsto> Str ''X'']])
     (Str ''id1'')
   = Some [''track_id'' \<mapsto> Str ''id1'', ''popularity'' \<mapsto> Num (Finite 80), ''name'' \<mapsto> Str ''X'']
   \<and> field (hd (preprocessTracks 2026 dated_B)) ''release_year'' = Num (Finite 2021)
   \<and> field (hd (preprocessTracks 2026 dated_A)) ''release_year'' = Undefined
   \<and> map fst (merge_by_track_id (preprocessTracks 2026 dated_A) (preprocessTracks 2026 dated_B))
       = [Str ''id1'']
   \<and> field (entry_of (merge_by_track_id (preprocessTracks 2026 dated_A)
                        (preprocessTracks 2026 dated_B)) (Str ''id1'')) ''release_year''
       = Undefined
   \<and> length (load 2026 dated_A dated_B) = 1
   \<and> field (hd (load 2026 dated_A dated_B)) ''release_year'' = Undefined"
proof -
  let ?ra = "[''track_id'' \<mapsto> ''id1'', ''album_release_date'' \<mapsto> ''99'']"
  let ?rb = "[''track_id'' \<mapsto> ''id1'', ''album_release_date'' \<mapsto> ''2021-05-01'']"
  have ex: "jsmap_get
     (merge_by_track_id
        [[''track_id'' \<mapsto> Str ''id1'', ''popularity'' \<mapsto> Num (Finite 80)]]
        [[''track_id'' \<mapsto> Str ''id1'', ''popularity'' \<mapsto> Num (Finite 50), ''name'' \<mapsto> Str ''X'']])
     (Str ''id1'')
   = Some [''track_id'' \<mapsto> Str ''id1'', ''popularity'' \<mapsto> Num (Finite 80), ''name'' \<mapsto> Str ''X'']"
    by (simp add: merge_get track_key_def field_def) (auto simp: fun_eq_iff map_add_def)
  have b: "field (hd (preprocessTracks 2026 dated_B)) ''release_year'' = Num (Finite 2021)"
    by (simp add: preprocessTracks_def dated_B_def field_def row_release_year year_2021)
  have a: "field (hd (preprocessTracks 2026 dated_A)) ''release_year'' = Undefined"
    by (simp add: preprocessTracks_def dated_A_def field_def row_release_year year_99)
  have m: "merge_by_track_id (preprocessTracks 2026 dated_A) (preprocessTracks 2026 dated_B)
           = [(Str ''id1'', preprocessRow 2026 ?rb ++ preprocessRow 2026 ?ra)]"
    by (simp add: dated_A_def dated_B_def preprocessTracks_def merge_by_track_id_def
          seed_step_def merge_step_def jsmap_get_def track_key_def [symmetric] track_key_row)
  have k: "map fst (merge_by_track_id (preprocessTracks 2026 dated_A) (preprocessTracks 2026 dated_B))
       = [Str ''id1'']"
    unfolding m by simp
  have e: "field (entry_of (merge_by_track_id (preprocessTracks 2026 dated_A)
                        (preprocessTracks 2026 dated_B)) (Str ''id1'')) ''release_year''
       = Undefined"
    unfolding m
    by (simp add: entry_of_def jsmap_get_def field_def map_add_def row_release_year year_99)
  have l: "load 2026 dated_A dated_B = [preprocessRow 2026 ?rb ++ preprocessRow 2026 ?ra]"
    unfolding load_def m by simp
  have n: "length (load 2026 dated_A dated_B) = 1"
    unfolding l by simp
  have h: "field (hd (load 2026 dated_A dated_B)) ''release_year'' = Undefined"
    unfolding l by (simp add: field_def map_add_def row_release_year year_99)
  show ?thesis
    using ex b a k e n h by (intro conjI)
qed

section \<open>Sorting, sets and counting\<close>

subsection \<open>The sort\<close>

lemma mset_js_insert: "mset (js_insert cmp x ys) = add_mset x (mset ys)"
  by (induction ys) auto

lemma mset_js_sort: "mset (js_sort cmp xs) = mset xs"
  unfolding js_sort_def by (induction xs) (auto simp: mset_js_insert)

lemma set_js_sort: "set (js_sort cmp xs) = set xs"
  using mset_js_sort [of cmp xs] by (rule mset_eq_setD)

lemma distinct_js_sort: "distinct (js_sort cmp xs) = distinct xs"
  using mset_js_sort [of cmp xs] by (rule mset_eq_imp_distinct_iff)

lemma set_js_insert: "set (js_insert cmp x ys) = insert x (set ys)"
  by (induction ys) auto

text \<open>A comparator that orders by a key makes the sort the stable sort by that key.\<close>

lemma js_insert_key:
  assumes "\<And>y. y \<in> set ys \<Longrightarrow> not_after (cmp x y) = (f x \<le> f y)"
  shows "js_insert cmp x ys = insort_key f x ys"
  using assms by (induction ys) auto

lemma js_sort_key:
  assumes "\<And>x y. x \<in> set xs \<Longrightarrow> y \<in> set xs \<Longrightarrow> not_after (cmp x y) = (f x \<le> f y)"
  shows "js_sort cmp xs = sort_key f xs"
  using assms
proof (induction xs)
  case Nil
  then show ?case by (simp add: js_sort_def)
next
  case (Cons x xs)
  have "js_sort cmp xs = sort_key f xs"
    using Cons by simp
  moreover have "js_insert cmp x (sort_key f xs) = insort_key f x (sort_key f xs)"
    using Cons.prems by (intro js_insert_key) simp
  ultimately show ?case
    by (simp add: js_sort_def)
qed

subsection \<open>Sets in insertion order\<close>

lemma js_dedup_snoc:
  "js_dedup (xs @ [x]) = (if x \<in> set (js_dedup xs) then js_dedup xs else js_dedup xs @ [x])"
  by (simp add: js_dedup_def)

lemma js_dedup_Nil [simp]: "js_dedup [] = []"
  by (simp add: js_dedup_def)

lemma set_js_dedup [simp]: "set (js_dedup xs) = set xs"
  by (induction xs rule: rev_induct) (auto simp: js_dedup_snoc)

lemma distinct_js_dedup [simp]: "distinct (js_dedup xs)"
  by (induction xs rule: rev_induct) (auto simp: js_dedup_snoc)

lemma js_dedup_acc:
  "foldl (\<lambda>acc x. if x \<in> set acc then acc else acc @ [x]) acc xs
   = acc @ filter (\<lambda>y. y \<notin> set acc) (js_dedup xs)"
proof (induction xs arbitrary: acc)
  case Nil
  then show ?case by simp
next
  case (Cons x xs)
  have one: "js_dedup (x # xs) = x # filter (\<lambda>y. y \<noteq> x) (js_dedup xs)"
    using Cons.IH [of "[x]"] by (simp add: js_dedup_def)
  show ?case
  proof (cases "x \<in> set acc")
    case True
    then have "filter (\<lambda>y. y \<notin> set acc) (filter (\<lambda>y. y \<noteq> x) (js_dedup xs))
               = filter (\<lambda>y. y \<notin> set acc) (js_dedup xs)"
      by (auto intro: filter_cong)
    then show ?thesis
      using True Cons.IH [of acc] by (simp add: one)
  next
    case False
    have "filter (\<lambda>y. y \<notin> set (acc @ [x])) (js_dedup xs)
          = filter (\<lambda>y. y \<notin> set acc) (filter (\<lambda>y. y \<noteq> x) (js_dedup xs))"
      by (auto intro: filter_cong)
    then show ?thesis
      using False Cons.IH [of "acc @ [x]"] by (simp add: one)
  qed
qed

lemma js_dedup_Cons: "js_dedup (x # xs) = x # filter (\<lambda>y. y \<noteq> x) (js_dedup xs)"
  using js_dedup_acc [of "[x]" xs] by (simp add: js_dedup_def)

subsection \<open>Positions of first occurrence\<close>

lemma first_index_Nil [simp]: "first_index [] z = 0"
  by (simp add: first_index_def)

lemma first_index_Cons [simp]:
  "first_index (x # xs) z = (if z = x then 0 else Suc (first_index xs z))"
  by (auto simp: first_index_def)

lemma first_index_nth: "distinct xs \<Longrightarrow> i < length xs \<Longrightarrow> first_index xs (xs ! i) = i"
  by (induction xs arbitrary: i) (auto simp: nth_Cons split: nat.splits)

lemma first_index_filter:
  "P x \<Longrightarrow> P y \<Longrightarrow>
   first_index (filter P xs) x < first_index (filter P xs) y
   \<longleftrightarrow> first_index xs x < first_index xs y"
  by (induction xs) auto

lemma first_index_map:
  "inj f \<Longrightarrow> first_index (map f xs) (f x) = first_index xs x"
  by (induction xs) (auto dest: injD)

lemma first_index_dedup:
  "first_index (js_dedup ls) x < first_index (js_dedup ls) y
   \<longleftrightarrow> first_index ls x < first_index ls y"
proof (induction ls)
  case Nil
  then show ?case by simp
next
  case (Cons a ls)
  show ?case
  proof (cases "x = a \<or> y = a")
    case True
    then show ?thesis
      by (auto simp: js_dedup_Cons)
  next
    case False
    then have "first_index (filter (\<lambda>z. z \<noteq> a) (js_dedup ls)) x
               < first_index (filter (\<lambda>z. z \<noteq> a) (js_dedup ls)) y
               \<longleftrightarrow> first_index (js_dedup ls) x < first_index (js_dedup ls) y"
      by (intro first_index_filter) auto
    then show ?thesis
      using False Cons.IH by (simp add: js_dedup_Cons)
  qed
qed

subsection \<open>The counting pass\<close>

lemma jsmap_set_present:
  "k \<in> set ks \<Longrightarrow> distinct ks \<Longrightarrow>
   jsmap_set (map (\<lambda>g. (g, f g)) ks) k v = map (\<lambda>g. (g, if g = k then v else f g)) ks"
  by (induction ks) auto

lemma jsmap_set_absent:
  "k \<notin> set ks \<Longrightarrow> jsmap_set (map (\<lambda>g. (g, f g)) ks) k v = map (\<lambda>g. (g, f g)) ks @ [(k, v)]"
  by (induction ks) auto

lemma jsmap_get_tabulated:
  "jsmap_get (map (\<lambda>g. (g, f g)) ks) k = (if k \<in> set ks then Some (f k) else None)"
  by (induction ks) (auto simp: jsmap_get_def)

lemma counts_of_snoc:
  "jsmap_set (counts_of pre) g ((case jsmap_get (counts_of pre) g of None \<Rightarrow> 0 | Some c \<Rightarrow> c) + 1)
   = counts_of (pre @ [g])"
proof (cases "g \<in> set pre")
  case True
  then show ?thesis
    by (simp add: counts_of_def jsmap_get_tabulated jsmap_set_present js_dedup_snoc)
next
  case False
  then show ?thesis
    by (auto simp add: counts_of_def jsmap_get_tabulated jsmap_set_absent js_dedup_snoc)
qed

lemma count_pass:
  assumes "\<And>m d. step m d
             = jsmap_set m (lab d) ((case jsmap_get m (lab d) of None \<Rightarrow> 0 | Some c \<Rightarrow> c) + 1)"
  shows "foldl step (counts_of pre) data = counts_of (pre @ map lab data)"
proof (induction data arbitrary: pre)
  case Nil
  then show ?case by simp
next
  case (Cons d data)
  have "step (counts_of pre) d = counts_of (pre @ [lab d])"
    by (simp only: assms counts_of_snoc)
  then show ?case
    using Cons.IH [of "pre @ [lab d]"] by simp
qed

lemma counts_of_Nil: "counts_of [] = []"
  by (simp add: counts_of_def)

lemma count_step_pass: "foldl count_step [] data = counts_of (map genre_label data)"
  using count_pass [of count_step genre_label "[]" data]
  by (simp add: count_step_def Let_def counts_of_Nil)

lemma rollup_step_pass:
  "foldl rollup_step [] data = counts_of (map (\<lambda>d. field d ''genre_top'') data)"
  using count_pass [of rollup_step "\<lambda>d. field d ''genre_top''" "[]" data]
  by (simp add: rollup_step_def Let_def counts_of_Nil)

subsection \<open>The ranking of the labels\<close>

lemma by_count_desc_key:
  "not_after (by_count_desc x y) = (- int (snd x) \<le> - int (snd y))"
  by (simp add: by_count_desc_def js_sub_def)

lemma descending_key:
  "not_after (descending (snd x) (snd y)) = (- int (snd x) \<le> - int (snd y))"
  by (simp add: descending_def)

lemma sort_by_count: "js_sort by_count_desc E = sort_key (\<lambda>e. - int (snd e)) E"
  by (rule js_sort_key) (rule by_count_desc_key)

lemma sort_descending:
  "js_sort (\<lambda>a b. descending (snd a) (snd b)) E = sort_key (\<lambda>e. - int (snd e)) E"
  by (rule js_sort_key) (rule descending_key)

lemma slice0_take: "0 \<le> k \<Longrightarrow> slice0 xs k = take (nat k) xs"
  by (simp add: slice0_def)

lemma topKGenres_ranking:
  "0 \<le> k \<Longrightarrow> topKGenres data k = map fst (take (nat k) (ranking (map genre_label data)))"
  by (simp add: topKGenres_def count_step_pass sort_by_count slice0_take ranking_def)

lemma heatmap_top_ranking:
  "heatmap_top data
   = map fst (take 10 (ranking (map (\<lambda>d. field d ''genre_top'') (heatmap_filtered data))))"
  by (simp add: heatmap_top_def rollup_step_pass sort_descending slice0_def ranking_def)

lemma set_counts_of: "set (counts_of ls) = (\<lambda>g. (g, count_list ls g)) ` set ls"
  by (simp add: counts_of_def)

lemma distinct_counts_of: "distinct (counts_of ls)"
  by (simp add: counts_of_def distinct_map inj_on_def)

lemma ranking_entry: "e \<in> set (ranking ls) \<Longrightarrow> snd e = count_list ls (fst e) \<and> fst e \<in> set ls"
  by (auto simp: ranking_def set_counts_of)

lemma distinct_ranking: "distinct (ranking ls)"
  by (simp add: ranking_def distinct_counts_of)

lemma length_ranking: "length (ranking ls) = card (set ls)"
  by (simp add: ranking_def counts_of_def distinct_card [symmetric])

lemma fst_ranking: "set (map fst (ranking ls)) = set ls"
  by (force simp: ranking_def set_counts_of)

lemma distinct_fst_ranking: "distinct (map fst (ranking ls))"
proof -
  have "inj_on fst (set (ranking ls))"
    by (rule inj_onI) (metis prod.expand ranking_entry)
  then show ?thesis
    by (simp add: distinct_map distinct_ranking)
qed

text \<open>An entry that comes earlier in the ranking has at least the count of a later one,
  and on equal counts its label was met first.\<close>

lemma ranking_order:
  assumes "i < j" "j < length (ranking ls)"
  shows "count_list ls (fst (ranking ls ! j)) < count_list ls (fst (ranking ls ! i))
         \<or> (count_list ls (fst (ranking ls ! j)) = count_list ls (fst (ranking ls ! i))
            \<and> first_index ls (fst (ranking ls ! i)) < first_index ls (fst (ranking ls ! j)))"
proof -
  let ?S = "ranking ls" and ?f = "\<lambda>e :: 'a \<times> nat. - int (snd e)"
  let ?tab = "\<lambda>g. (g, count_list ls g)"
  have i: "i < length ?S"
    using assms by simp
  have ei: "?S ! i = ?tab (fst (?S ! i))" and ej: "?S ! j = ?tab (fst (?S ! j))"
    using ranking_entry [of "?S ! i" ls] ranking_entry [of "?S ! j" ls] i assms(2)
    by (simp_all add: prod_eq_iff)
  have "sorted (map ?f ?S)"
    by (simp add: ranking_def)
  then have "?f (?S ! i) \<le> ?f (?S ! j)"
    using assms i by (simp add: sorted_iff_nth_mono_less)
  then have le: "count_list ls (fst (?S ! j)) \<le> count_list ls (fst (?S ! i))"
    using ranking_entry [of "?S ! i" ls] ranking_entry [of "?S ! j" ls] i assms(2) by simp
  show ?thesis
  proof (cases "count_list ls (fst (?S ! j)) = count_list ls (fst (?S ! i))")
    case False
    then show ?thesis using le by simp
  next
    case True
    define c where "c = ?f (?S ! i)"
    have Pi: "?f (?S ! i) = c" and Pj: "?f (?S ! j) = c"
      using True ranking_entry [of "?S ! i" ls] ranking_entry [of "?S ! j" ls] i assms(2)
      by (simp_all add: c_def)
    have "first_index ?S (?S ! i) < first_index ?S (?S ! j)"
      using assms i by (simp add: first_index_nth distinct_ranking)
    then have "first_index (filter (\<lambda>e. ?f e = c) ?S) (?S ! i)
               < first_index (filter (\<lambda>e. ?f e = c) ?S) (?S ! j)"
      using first_index_filter [of "\<lambda>e. ?f e = c" "?S ! i" "?S ! j" ?S] Pi Pj by simp
    then have "first_index (filter (\<lambda>e. ?f e = c) (counts_of ls)) (?S ! i)
               < first_index (filter (\<lambda>e. ?f e = c) (counts_of ls)) (?S ! j)"
      by (simp add: ranking_def sort_key_stable)
    then have "first_index (counts_of ls) (?S ! i) < first_index (counts_of ls) (?S ! j)"
      using first_index_filter [of "\<lambda>e. ?f e = c" "?S ! i" "?S ! j" "counts_of ls"] Pi Pj by simp
    then have "first_index (map ?tab (js_dedup ls)) (?tab (fst (?S ! i)))
               < first_index (map ?tab (js_dedup ls)) (?tab (fst (?S ! j)))"
      using ei ej by (simp add: counts_of_def)
    moreover have "inj ?tab"
      by (simp add: inj_on_def)
    ultimately have "first_index (js_dedup ls) (fst (?S ! i)) < first_index (js_dedup ls) (fst (?S ! j))"
      using first_index_map [of ?tab "js_dedup ls" "fst (?S ! i)"]
        first_index_map [of ?tab "js_dedup ls" "fst (?S ! j)"]
      by simp
    then show ?thesis
      using True by (simp add: first_index_dedup)
  qed
qed

text \<open>The first \<open>n\<close> labels of the ranking beat every other label.\<close>

lemma top_of_ranking:
  assumes "g \<in> set (map fst (take n (ranking ls)))"
    and "h \<in> set ls - set (map fst (take n (ranking ls)))"
  shows "count_list ls h < count_list ls g
         \<or> (count_list ls h = count_list ls g \<and> first_index ls g < first_index ls h)"
proof -
  let ?S = "ranking ls"
  obtain i where i: "i < n" "i < length ?S" "fst (?S ! i) = g"
    using assms(1) by (auto simp: in_set_conv_nth)
  have "h \<in> set (map fst ?S)"
    using assms(2) fst_ranking [of ls] by simp
  then obtain j where j: "j < length ?S" "fst (?S ! j) = h"
    by (auto simp: in_set_conv_nth)
  have "\<not> j < n"
  proof
    assume "j < n"
    then have "?S ! j \<in> set (take n ?S)"
      using j(1) by (auto simp: in_set_conv_nth intro!: exI [of _ j])
    then show False
      using assms(2) j(2) by force
  qed
  then have "i < j"
    using i(1) by simp
  from ranking_order [OF this j(1)] show ?thesis
    by (simp add: i(3) j(2))
qed

section \<open>The Top-K aggregator\<close>

lemmas view_evals =
  topKGenres_def count_step_def genre_label_def genre_row_def nullish_or_def nullish_def
  field_def jsmap_get_def js_sort_def by_count_desc_def js_sub_def slice0_def Let_def

text \<open>
  C8. For every dataset and every count K that is not negative, \<^verbatim>\<open>topKGenres\<close> returns
  K distinct labels of the dataset (all of them when there are fewer than K), and each
  returned label beats each label left out: it occurs more often, or as often and was met
  earlier by the counting pass. With K = 2 over the labels a, a, a, b, b, c the result is
  the set {a, b}.
\<close>

theorem topKGenres_most_frequent:
  assumes "0 \<le> k"
  shows "distinct (topKGenres data k)
     \<and> set (topKGenres data k) \<subseteq> set (map genre_label data)
     \<and> length (topKGenres data k) = min (nat k) (card (set (map genre_label data)))
     \<and> (\<forall>g\<in>set (topKGenres data k). \<forall>h\<in>set (map genre_label data) - set (topKGenres data k).
           count_list (map genre_label data) h < count_list (map genre_label data) g
           \<or> (count_list (map genre_label data) h = count_list (map genre_label data) g
              \<and> first_index (map genre_label data) g < first_index (map genre_label data) h))
     \<and> set (topKGenres (map genre_row [''a'', ''a'', ''a'', ''b'', ''b'', ''c'']) 2)
         = {Str ''a'', Str ''b''}"
proof -
  let ?ls = "map genre_label data"
  have t: "topKGenres data k = map fst (take (nat k) (ranking ?ls))"
    using assms by (rule topKGenres_ranking)
  have d: "distinct (topKGenres data k)"
    unfolding t take_map [symmetric] using distinct_fst_ranking [of ?ls] by (rule distinct_take)
  have s: "set (topKGenres data k) \<subseteq> set ?ls"
    unfolding t take_map [symmetric] using set_take_subset [of "nat k" "map fst (ranking ?ls)"]
    by (simp only: fst_ranking)
  have l: "length (topKGenres data k) = min (nat k) (card (set ?ls))"
    unfolding t by (simp add: length_ranking min.commute)
  have r: "\<forall>g\<in>set (topKGenres data k). \<forall>h\<in>set ?ls - set (topKGenres data k).
           count_list ?ls h < count_list ?ls g
           \<or> (count_list ?ls h = count_list ?ls g \<and> first_index ?ls g < first_index ?ls h)"
    unfolding t using top_of_ranking [of _ "nat k" ?ls] by blast
  have e: "set (topKGenres (map genre_row [''a'', ''a'', ''a'', ''b'', ''b'', ''c'']) 2)
         = {Str ''a'', Str ''b''}"
    by (simp add: view_evals)
  show ?thesis
    using d s l r e by (intro conjI)
qed

theorem topKGenres_most_frequent_witness:
  "length (topKGenres (map genre_row [''a'', ''b'', ''b'']) 1) = 1
   \<and> set (topKGenres (map genre_row [''a'', ''b'', ''b'']) 1) \<subseteq> {Str ''a'', Str ''b''}"
proof -
  have c: "map genre_label (map genre_row [''a'', ''b'', ''b'']) = [Str ''a'', Str ''b'', Str ''b'']"
    by (simp add: genre_label_def genre_row_def nullish_or_def nullish_def field_def)
  have k: "(0 :: int) \<le> 1"
    by simp
  show ?thesis
    using topKGenres_most_frequent [OF k, of "map genre_row [''a'', ''b'', ''b'']"]
    unfolding c by simp
qed

section \<open>The sample of the parallel-coordinates view\<close>

lemma by_popularity_key:
  assumes "isFinite (popularity a)" "isFinite (popularity b)"
  shows "not_after (by_popularity_desc a b) = (- popularity_value a \<le> - popularity_value b)"
  using assms
  by (cases "popularity a"; cases "popularity b")
     (simp_all add: by_popularity_desc_def js_sub_def popularity_value_def)

lemma sort_by_popularity:
  assumes "\<forall>d\<in>set rows. isFinite (popularity d)"
  shows "js_sort by_popularity_desc rows = sort_key (\<lambda>d. - popularity_value d) rows"
  using assms by (intro js_sort_key by_popularity_key) auto

lemma mset_year_filter: "mset (year_filter y rows) \<subseteq># mset rows"
  by (auto simp: year_filter_def split: option.splits)

lemma mset_genre_filter: "mset (genre_filter g rows) \<subseteq># mset rows"
  by (auto simp: genre_filter_def Let_def split: option.splits)

lemma mset_pc_filtered: "mset (pc_filtered data y g) \<subseteq># mset data"
proof -
  have "mset (pc_filtered data y g) \<subseteq># mset (pc_rows data)"
    unfolding pc_filtered_def
    using mset_genre_filter mset_year_filter by (rule subset_mset.order_trans)
  moreover have "mset (pc_rows data) \<subseteq># mset data"
    by (simp add: pc_rows_def)
  ultimately show ?thesis
    by (rule subset_mset.order_trans)
qed

lemma sorted_take_drop:
  assumes "sorted (map f xs)" "x \<in> set (take n xs)" "y \<in> set (drop n xs)"
  shows "f x \<le> f y"
proof -
  have "sorted (map f (take n xs) @ map f (drop n xs))"
    using assms(1) by (simp flip: map_append)
  then show ?thesis
    using assms(2,3) by (auto simp: sorted_append)
qed

lemma pc_filtered_char:
  "pc_filtered data y g
   = filter (\<lambda>d. \<not> nullish (field d ''followers_log'') \<and> \<not> nullish (field d ''duration_min'')
               \<and> (case y of None \<Rightarrow> True | Some yr \<Rightarrow> field d ''release_year'' = Num (Finite yr))
               \<and> (case g of None \<Rightarrow> True
                   | Some sg \<Rightarrow> bucket (topKGenres (year_filter y (pc_rows data)) 10) (genre_label d)
                                = Str sg)) data"
  by (cases y; cases g)
     (auto simp: pc_filtered_def genre_filter_def year_filter_def pc_rows_def Let_def strict_eq_def
           intro: filter_cong)

text \<open>
  C9. For every dataset whose rows have a finite popularity, as every loaded dataset has,
  and every selection: the sample has at most 200 rows, all of them filtered rows; it is
  ordered by descending popularity; no filtered row left out is more popular than a row of
  the sample; and the filtered rows are the rows of the dataset that have followers_log
  and duration_min, the selected year and the selected genre bucket.
\<close>

theorem sample_top_200:
  assumes "\<forall>d\<in>set data. isFinite (popularity d)"
  shows "length (sample data y g) = min 200 (length (pc_filtered data y g))
     \<and> mset (sample data y g) \<subseteq># mset (pc_filtered data y g)
     \<and> sorted_wrt (\<lambda>a b. popularity_value b \<le> popularity_value a) (sample data y g)
     \<and> (\<forall>x\<in>set (sample data y g). \<forall>z\<in>#mset (pc_filtered data y g) - mset (sample data y g).
           popularity_value z \<le> popularity_value x)
     \<and> pc_filtered data y g
         = filter (\<lambda>d. \<not> nullish (field d ''followers_log'') \<and> \<not> nullish (field d ''duration_min'')
               \<and> (case y of None \<Rightarrow> True | Some yr \<Rightarrow> field d ''release_year'' = Num (Finite yr))
               \<and> (case g of None \<Rightarrow> True
                   | Some sg \<Rightarrow> bucket (topKGenres (year_filter y (pc_rows data)) 10) (genre_label d)
                                = Str sg)) data"
proof -
  let ?F = "pc_filtered data y g" and ?f = "\<lambda>d. - popularity_value d"
  let ?S = "sort_key ?f ?F"
  have "set ?F \<subseteq> set data"
    using set_mset_mono [OF mset_pc_filtered [of data y g]] by simp
  then have fin: "\<forall>d\<in>set ?F. isFinite (popularity d)"
    using assms by blast
  have s: "sample data y g = take 200 ?S"
    by (simp add: sample_def sort_by_popularity [OF fin] slice0_def)
  have 1: "length (sample data y g) = min 200 (length ?F)"
    by (simp add: s min.commute)
  have split: "mset ?F = mset (take 200 ?S) + mset (drop 200 ?S)"
    by (metis append_take_drop_id mset_append mset_sort)
  have 2: "mset (sample data y g) \<subseteq># mset ?F"
    by (simp add: s split)
  have srt: "sorted (map ?f ?S)"
    by simp
  then have "sorted (map ?f (take 200 ?S))"
    by (simp add: take_map [symmetric] sorted_wrt_take)
  then have 3: "sorted_wrt (\<lambda>a b. popularity_value b \<le> popularity_value a) (sample data y g)"
    by (simp add: s sorted_map)
  have rest: "mset ?F - mset (sample data y g) = mset (drop 200 ?S)"
    by (simp add: s split)
  have 4: "\<forall>x\<in>set (sample data y g). \<forall>z\<in>#mset ?F - mset (sample data y g).
           popularity_value z \<le> popularity_value x"
    unfolding rest using sorted_take_drop [OF srt] by (fastforce simp: s)
  show ?thesis
    using 1 2 3 4 pc_filtered_char [of data y g] by (intro conjI)
qed

theorem sample_top_200_witness:
  "length (sample [view_row 2020 ''pop'' 10, view_row 2020 ''pop'' 90] (Some 2020) None) = 2
   \<and> sorted_wrt (\<lambda>a b. popularity_value b \<le> popularity_value a)
        (sample [view_row 2020 ''pop'' 10, view_row 2020 ''pop'' 90] (Some 2020) None)"
proof -
  let ?D = "[view_row 2020 ''pop'' 10, view_row 2020 ''pop'' 90]"
  have h: "\<forall>d\<in>set ?D. isFinite (popularity d)"
    by (simp add: popularity_def view_row_def field_def nullish_or_def nullish_def)
  have l: "length (pc_filtered ?D (Some 2020) None) = 2"
    by (simp add: pc_filtered_def genre_filter_def year_filter_def pc_rows_def view_row_def
          field_def nullish_def strict_eq_def)
  show ?thesis
    using sample_top_200 [OF h, of "Some 2020" None] l by simp
qed

text \<open>Every record of the loaded dataset is normalised: it has a finite popularity, so
  the comparator of the sample is consistent on it, and a string as top genre.\<close>

lemma toNumber_finite: "\<exists>r. toNumber v (Finite 0) = Finite r"
  by (cases "Number v") (simp_all add: toNumber_def)

lemma normalised_row: "normalised (preprocessRow cy x)"
  using toNumber_finite [of "field (raw_object x) ''track_popularity''"]
  by (auto simp: normalised_def preprocessRow_def Let_def)

lemma normalised_add: "normalised r \<Longrightarrow> normalised (e ++ r)"
  by (auto simp: normalised_def map_add_def)

lemma all_normalised_set:
  assumes "all_normalised m" "normalised d"
  shows "all_normalised (jsmap_set m k d)"
proof -
  have "normalised d'" if e: "(k', d') \<in> set (jsmap_set m k d)" for k' d'
  proof (cases "(k', d') = (k, d)")
    case True
    then show ?thesis using assms(2) by simp
  next
    case False
    then have "(k', d') \<in> set m"
      using e jsmap_set_subset [of m k d] by auto
    then show ?thesis
      using assms(1) by (auto simp: all_normalised_def)
  qed
  then show ?thesis
    unfolding all_normalised_def by blast
qed

lemma all_normalised_seed:
  "all_normalised m \<Longrightarrow> all_normalised (foldl seed_step m (preprocessTracks cy b))"
proof (induction b arbitrary: m)
  case Nil
  then show ?case by (simp add: preprocessTracks_def)
next
  case (Cons x b)
  have "all_normalised (seed_step m (preprocessRow cy x))"
    unfolding seed_step_def using Cons.prems normalised_row by (rule all_normalised_set)
  then show ?case
    using Cons.IH by (simp add: preprocessTracks_def)
qed

lemma all_normalised_merge:
  "all_normalised m \<Longrightarrow> all_normalised (foldl merge_step m (preprocessTracks cy a))"
proof (induction a arbitrary: m)
  case Nil
  then show ?case by (simp add: preprocessTracks_def)
next
  case (Cons x a)
  have "normalised (e ++ preprocessRow cy x)" for e
    using normalised_row by (rule normalised_add)
  then have "all_normalised (merge_step m (preprocessRow cy x))"
    unfolding merge_step_def using Cons.prems by (rule all_normalised_set [rotated])
  then show ?case
    using Cons.IH by (simp add: preprocessTracks_def)
qed

lemma load_normalised: "d \<in> set (load cy a b) \<Longrightarrow> normalised d"
proof -
  assume d: "d \<in> set (load cy a b)"
  have "all_normalised []"
    by (simp add: all_normalised_def)
  then have "all_normalised (foldl seed_step [] (preprocessTracks cy b))"
    by (rule all_normalised_seed)
  then have m: "all_normalised
      (merge_by_track_id (preprocessTracks cy a) (preprocessTracks cy b))"
    unfolding merge_by_track_id_def by (rule all_normalised_merge)
  obtain k where "(k, d) \<in> set (merge_by_track_id (preprocessTracks cy a) (preprocessTracks cy b))"
    using d by (auto simp: load_def)
  then show ?thesis
    using m by (auto simp: all_normalised_def)
qed

lemma load_popularity_finite: "\<forall>d\<in>set (load cy a b). isFinite (popularity d)"
proof
  fix d
  assume "d \<in> set (load cy a b)"
  then obtain r where "d ''track_popularity'' = Some (Num (Finite r))"
    using load_normalised [of d cy a b] by (auto simp: normalised_def)
  then show "isFinite (popularity d)"
    by (simp add: popularity_def field_def nullish_or_def nullish_def)
qed

lemma load_genre_top_string:
  "\<forall>d\<in>set (load cy a b). nullish (field d ''genre_top'') \<or> (\<exists>s. field d ''genre_top'' = Str s)"
proof
  fix d
  assume "d \<in> set (load cy a b)"
  then obtain s where "d ''genre_top'' = Some (Str s)"
    using load_normalised [of d cy a b] by (auto simp: normalised_def)
  then show "nullish (field d ''genre_top'') \<or> (\<exists>s. field d ''genre_top'' = Str s)"
    by (simp add: field_def)
qed

section \<open>The genre axis of the heatmap\<close>

lemma sorted_js_insert_distinct:
  assumes tot: "\<And>a b. a \<in> S \<Longrightarrow> b \<in> S \<Longrightarrow> a \<noteq> b \<Longrightarrow>
                  not_after (cmp a b) \<or> not_after (cmp b a)"
    and trans: "\<And>a b c. a \<in> S \<Longrightarrow> b \<in> S \<Longrightarrow> c \<in> S \<Longrightarrow>
                  not_after (cmp a b) \<Longrightarrow> not_after (cmp b c) \<Longrightarrow> not_after (cmp a c)"
    and "x \<in> S" "set ys \<subseteq> S" "x \<notin> set ys" "sorted_wrt (\<lambda>a b. not_after (cmp a b)) ys"
  shows "sorted_wrt (\<lambda>a b. not_after (cmp a b)) (js_insert cmp x ys)"
  using assms(3-)
proof (induction ys)
  case Nil
  then show ?case by simp
next
  case (Cons y ys)
  show ?case
  proof (cases "not_after (cmp x y)")
    case True
    have "not_after (cmp x z)" if "z \<in> set ys" for z
      using trans [of x y z] True Cons.prems that by auto
    then show ?thesis
      using True Cons.prems by auto
  next
    case False
    then have "not_after (cmp y x)"
      using tot [of x y] Cons.prems by auto
    then show ?thesis
      using False Cons by (auto simp: set_js_insert)
  qed
qed

lemma sorted_js_sort_distinct:
  assumes tot: "\<And>a b. a \<in> S \<Longrightarrow> b \<in> S \<Longrightarrow> a \<noteq> b \<Longrightarrow>
                  not_after (cmp a b) \<or> not_after (cmp b a)"
    and trans: "\<And>a b c. a \<in> S \<Longrightarrow> b \<in> S \<Longrightarrow> c \<in> S \<Longrightarrow>
                  not_after (cmp a b) \<Longrightarrow> not_after (cmp b c) \<Longrightarrow> not_after (cmp a c)"
    and "set xs \<subseteq> S" "distinct xs"
  shows "sorted_wrt (\<lambda>a b. not_after (cmp a b)) (js_sort cmp xs)"
  using assms(3-)
proof (induction xs)
  case Nil
  then show ?case by (simp add: js_sort_def)
next
  case (Cons x xs)
  have "sorted_wrt (\<lambda>a b. not_after (cmp a b)) (js_insert cmp x (js_sort cmp xs))"
  proof (rule sorted_js_insert_distinct [where S = S])
    show "not_after (cmp a b) \<or> not_after (cmp b a)" if "a \<in> S" "b \<in> S" "a \<noteq> b" for a b
      using that by (rule tot)
    show "not_after (cmp a c)"
      if "a \<in> S" "b \<in> S" "c \<in> S" "not_after (cmp a b)" "not_after (cmp b c)" for a b c
      using that by (rule trans)
    show "x \<in> S" "set (js_sort cmp xs) \<subseteq> S" "x \<notin> set (js_sort cmp xs)"
      using Cons.prems by (simp_all add: set_js_sort)
    show "sorted_wrt (\<lambda>a b. not_after (cmp a b)) (js_sort cmp xs)"
      using Cons by simp
  qed
  then show ?case
    by (simp add: js_sort_def)
qed

lemma genres_cmp_Other_left: "\<not> not_after (genres_cmp lc (Str ''Other'') b)"
  by (simp add: genres_cmp_def)

lemma genres_cmp_Other_right: "a \<noteq> Str ''Other'' \<Longrightarrow> not_after (genres_cmp lc a (Str ''Other''))"
  by (simp add: genres_cmp_def)

lemma genres_cmp_plain:
  "a \<noteq> Str ''Other'' \<Longrightarrow> b \<noteq> Str ''Other'' \<Longrightarrow>
   not_after (genres_cmp lc a b) = (lc (the_str a) (the_str b) \<le> 0)"
  by (simp add: genres_cmp_def)

lemma genres_cmp_total:
  assumes "\<forall>a b. lc a b \<le> 0 \<or> lc b a \<le> 0" "a \<noteq> b"
  shows "not_after (genres_cmp lc a b) \<or> not_after (genres_cmp lc b a)"
  using assms by (auto simp: genres_cmp_def)

lemma genres_cmp_trans:
  assumes "\<forall>a b c. lc a b \<le> 0 \<longrightarrow> lc b c \<le> 0 \<longrightarrow> lc a c \<le> 0"
    and "not_after (genres_cmp lc a b)" "not_after (genres_cmp lc b c)"
  shows "not_after (genres_cmp lc a c)"
proof -
  have a: "a \<noteq> Str ''Other''" and b: "b \<noteq> Str ''Other''"
    using assms(2,3) genres_cmp_Other_left by blast+
  show ?thesis
  proof (cases "c = Str ''Other''")
    case True
    then show ?thesis using a by (simp add: genres_cmp_Other_right)
  next
    case False
    then show ?thesis
      using assms a b by (simp add: genres_cmp_plain)
  qed
qed

lemma sorted_Other_last:
  assumes "sorted_wrt (\<lambda>a b. not_after (genres_cmp lc a b)) G" "distinct G"
  shows "G = filter (\<lambda>g. g \<noteq> Str ''Other'') G @ (if Str ''Other'' \<in> set G then [Str ''Other''] else [])"
  using assms
proof (induction G)
  case Nil
  then show ?case by simp
next
  case (Cons g G)
  show ?case
  proof (cases "g = Str ''Other''")
    case True
    then have "G = []"
      using Cons.prems(1) genres_cmp_Other_left [of lc] by (cases G) auto
    then show ?thesis
      using True by simp
  next
    case False
    then show ?thesis
      using Cons by auto
  qed
qed

lemma set_heatmap_filtered_label:
  assumes "\<forall>d\<in>set data. nullish (field d ''genre_top'') \<or> (\<exists>s. field d ''genre_top'' = Str s)"
    and "d \<in> set (heatmap_filtered data)"
  shows "\<exists>s. bucket tops (field d ''genre_top'') = Str s"
  using assms by (auto simp: heatmap_filtered_def bucket_def)

text \<open>
  C10. For every dataset whose top genres are strings, as those of every loaded dataset
  are, and a locale comparison that is a consistent comparator (total and transitive): the
  genre axis holds each bucketed label
  of the filtered rows exactly once, every label is a string, the labels other than
  \<open>Other\<close> are in the order of the locale comparison, and \<open>Other\<close>, when present, is
  the last element.
\<close>

theorem heatmap_genres_sorted:
  assumes "\<forall>a b. localeCompare a b \<le> 0 \<or> localeCompare b a \<le> 0"
    and "\<forall>a b c. localeCompare a b \<le> 0 \<longrightarrow> localeCompare b c \<le> 0 \<longrightarrow> localeCompare a c \<le> 0"
    and "\<forall>d\<in>set data. nullish (field d ''genre_top'') \<or> (\<exists>s. field d ''genre_top'' = Str s)"
  shows "distinct (heatmap_genres localeCompare data)
     \<and> set (heatmap_genres localeCompare data)
         = (\<lambda>d. bucket (heatmap_top data) (field d ''genre_top'')) ` set (heatmap_filtered data)
     \<and> (\<forall>g\<in>set (heatmap_genres localeCompare data). \<exists>s. g = Str s)
     \<and> sorted_wrt (\<lambda>a b. localeCompare (the_str a) (the_str b) \<le> 0)
          (filter (\<lambda>g. g \<noteq> Str ''Other'') (heatmap_genres localeCompare data))
     \<and> heatmap_genres localeCompare data
         = filter (\<lambda>g. g \<noteq> Str ''Other'') (heatmap_genres localeCompare data)
           @ (if Str ''Other'' \<in> set (heatmap_genres localeCompare data) then [Str ''Other''] else [])"
proof -
  let ?lab = "\<lambda>d. bucket (heatmap_top data) (field d ''genre_top'')"
  let ?L = "js_dedup (map ?lab (heatmap_filtered data))"
  let ?R = "\<lambda>a b. not_after (genres_cmp localeCompare a b)"
  have G: "heatmap_genres localeCompare data = js_sort (genres_cmp localeCompare) ?L"
    by (simp add: heatmap_genres_def Let_def)
  have d: "distinct (heatmap_genres localeCompare data)"
    by (simp add: G distinct_js_sort)
  have s: "set (heatmap_genres localeCompare data) = ?lab ` set (heatmap_filtered data)"
    by (simp add: G set_js_sort)
  have str: "\<forall>g\<in>set (heatmap_genres localeCompare data). \<exists>s. g = Str s"
    unfolding s using set_heatmap_filtered_label [OF assms(3)] by blast
  have srt: "sorted_wrt ?R (heatmap_genres localeCompare data)"
    unfolding G
  proof (rule sorted_js_sort_distinct [where S = UNIV])
    show "?R a b \<or> ?R b a" if "a \<noteq> b" for a b
      using assms(1) that by (rule genres_cmp_total)
    show "?R a c" if "?R a b" "?R b c" for a b c
      using assms(2) that by (rule genres_cmp_trans)
  qed simp_all
  then have "sorted_wrt ?R (filter (\<lambda>g. g \<noteq> Str ''Other'') (heatmap_genres localeCompare data))"
    by (rule sorted_wrt_filter)
  then have alpha: "sorted_wrt (\<lambda>a b. localeCompare (the_str a) (the_str b) \<le> 0)
          (filter (\<lambda>g. g \<noteq> Str ''Other'') (heatmap_genres localeCompare data))"
    by (rule sorted_wrt_mono_rel [rotated]) (simp add: genres_cmp_plain)
  have last: "heatmap_genres localeCompare data
         = filter (\<lambda>g. g \<noteq> Str ''Other'') (heatmap_genres localeCompare data)
           @ (if Str ''Other'' \<in> set (heatmap_genres localeCompare data) then [Str ''Other''] else [])"
    using srt d by (rule sorted_Other_last)
  show ?thesis
    using d s str alpha last by (intro conjI)
qed

lemma code_unit_compare_total: "code_unit_compare a b \<le> 0 \<or> code_unit_compare b a \<le> 0"
  by (induction a b rule: code_unit_compare.induct) auto

lemma code_unit_compare_trans:
  "code_unit_compare a b \<le> 0 \<Longrightarrow> code_unit_compare b c \<le> 0 \<Longrightarrow> code_unit_compare a c \<le> 0"
proof (induction a b arbitrary: c rule: code_unit_compare.induct)
  case 1
  then show ?case by simp
next
  case (2 y ys)
  then show ?case by (cases c) simp_all
next
  case (3 x xs)
  then show ?case by simp
next
  case (4 x xs y ys)
  show ?case
  proof (cases c)
    case Nil
    then show ?thesis using "4.prems"(2) by simp
  next
    case (Cons z zs)
    have xy: "(of_char x :: nat) \<le> of_char y"
      using "4.prems"(1) by (simp split: if_splits)
    have yz: "(of_char y :: nat) \<le> of_char z"
      using "4.prems"(2) unfolding Cons by (simp split: if_splits)
    show ?thesis
    proof (cases "(of_char x :: nat) < of_char z")
      case True
      then show ?thesis unfolding Cons by simp
    next
      case False
      then have e: "(of_char x :: nat) = of_char y" "(of_char y :: nat) = of_char z"
        using xy yz by linarith+
      have "code_unit_compare xs ys \<le> 0"
        using "4.prems"(1) e by simp
      moreover have "code_unit_compare ys zs \<le> 0"
        using "4.prems"(2) e unfolding Cons by simp
      ultimately have "code_unit_compare xs zs \<le> 0"
        using "4.IH" [of zs] e by simp
      then show ?thesis
        unfolding Cons using e by simp
    qed
  qed
qed

theorem heatmap_genres_sorted_witness:
  "distinct (heatmap_genres code_unit_compare three_genres)
   \<and> last (heatmap_genres code_unit_compare three_genres) = Str ''Other''
   \<and> set (heatmap_genres code_unit_compare three_genres) = {Str ''rock'', Str ''Other'', Str ''jazz''}"
proof -
  have t: "\<forall>a b. code_unit_compare a b \<le> 0 \<or> code_unit_compare b a \<le> 0"
    using code_unit_compare_total by blast
  have tr: "\<forall>a b c. code_unit_compare a b \<le> 0 \<longrightarrow> code_unit_compare b c \<le> 0
                \<longrightarrow> code_unit_compare a c \<le> 0"
    using code_unit_compare_trans by blast
  have ty: "\<forall>d\<in>set three_genres. nullish (field d ''genre_top'') \<or> (\<exists>s. field d ''genre_top'' = Str s)"
    by (simp add: three_genres_def view_row_def field_def)
  have f: "heatmap_filtered three_genres = three_genres"
    by (simp add: heatmap_filtered_def three_genres_def view_row_def field_def nullish_def)
  have top: "heatmap_top three_genres = [Str ''rock'', Str ''Other'', Str ''jazz'']"
    unfolding heatmap_top_def f
    by (simp add: three_genres_def rollup_step_def view_row_def field_def jsmap_get_def js_sort_def
          descending_def slice0_def)
  have img: "(\<lambda>d. bucket (heatmap_top three_genres) (field d ''genre_top'')) ` set (heatmap_filtered three_genres)
             = {Str ''rock'', Str ''Other'', Str ''jazz''}"
    unfolding top f by (simp add: three_genres_def view_row_def field_def bucket_def)
  note r = heatmap_genres_sorted [OF t tr ty]
  note r_distinct = r [THEN conjunct1]
  note r_set = r [THEN conjunct2, THEN conjunct1]
  note r_last = r [THEN conjunct2, THEN conjunct2, THEN conjunct2, THEN conjunct2]
  have s: "set (heatmap_genres code_unit_compare three_genres) = {Str ''rock'', Str ''Other'', Str ''jazz''}"
    using r_set unfolding img .
  then have o: "Str ''Other'' \<in> set (heatmap_genres code_unit_compare three_genres)"
    by simp
  have "heatmap_genres code_unit_compare three_genres
             = filter (\<lambda>g. g \<noteq> Str ''Other'') (heatmap_genres code_unit_compare three_genres) @ [Str ''Other'']"
    using r_last unfolding if_P [OF o] .
  then have "last (heatmap_genres code_unit_compare three_genres)
             = last (filter (\<lambda>g. g \<noteq> Str ''Other'') (heatmap_genres code_unit_compare three_genres)
                     @ [Str ''Other''])"
    by (rule arg_cong [where f = last])
  then have "last (heatmap_genres code_unit_compare three_genres) = Str ''Other''"
    unfolding last_snoc .
  then show ?thesis
    using r_distinct s by (intro conjI)
qed

section \<open>The genre buckets across the views\<close>

lemma view_row_fields:
  "field (view_row yr g p) ''release_year'' = Num (Finite yr)"
  "field (view_row yr g p) ''genre_top'' = Str g"
  "field (view_row yr g p) ''followers_log'' = Num (Finite 1)"
  "field (view_row yr g p) ''track_popularity'' = Num (Finite p)"
  "field (view_row yr g p) ''duration_min'' = Num (Finite 3)"
  by (simp_all add: view_row_def field_def)

lemma view_row_label: "genre_label (view_row yr g p) = Str g"
  by (simp add: genre_label_def view_row_fields nullish_or_def nullish_def)

lemma view_row_popularity: "popularity (view_row yr g p) = Finite p"
  by (simp add: popularity_def view_row_fields nullish_or_def nullish_def)

lemmas view_evals2 =
  view_row_fields view_row_label view_row_popularity nullish_def strict_eq_def
  jsmap_get_def js_sort_def slice0_def Let_def bucket_def

lemma heatmap_eleven:
  "heatmap_top eleven_genres
   = map Str [''k'', ''a'', ''b'', ''c'', ''d'', ''e'', ''f'', ''g'', ''h'', ''i'']"
  by (simp add: heatmap_top_def heatmap_filtered_def rollup_step_def descending_def
        eleven_genres_def view_evals2)

lemma scatter_rows_eleven: "scatter_rows eleven_genres = eleven_genres"
  by (simp add: scatter_rows_def eleven_genres_def view_evals2)

lemma pc_rows_eleven: "pc_rows eleven_genres = eleven_genres"
  by (simp add: pc_rows_def eleven_genres_def view_evals2)

lemma year_eleven:
  "year_filter (Some 2021) eleven_genres
   = map (\<lambda>g. view_row 2021 g 50)
       [''a'', ''b'', ''c'', ''d'', ''e'', ''f'', ''g'', ''h'', ''i'', ''j'', ''k'']"
  by (simp add: year_filter_def eleven_genres_def view_evals2)

lemma topK_eleven:
  "topKGenres (year_filter (Some 2021) eleven_genres) 10
   = map Str [''a'', ''b'', ''c'', ''d'', ''e'', ''f'', ''g'', ''h'', ''i'', ''j'']"
  unfolding year_eleven
  by (simp add: topKGenres_def count_step_def by_count_desc_def js_sub_def view_evals2)

lemma genre_filter_eleven:
  "genre_filter (Some ''Other'') (year_filter (Some 2021) eleven_genres) = [view_row 2021 ''k'' 50]"
  unfolding genre_filter_def option.case Let_def topK_eleven
  unfolding year_eleven
  by (simp add: view_evals2)

text \<open>The heatmap ranks with the rule of \<^verbatim>\<open>topKGenres\<close> and K = 10, over its own
  rows: the rows of all years that have a release year and a top genre.\<close>

lemma heatmap_top_is_topK: "heatmap_top data = topKGenres (heatmap_filtered data) 10"
proof -
  have e: "map (\<lambda>d. field d ''genre_top'') (heatmap_filtered data)
        = map genre_label (heatmap_filtered data)"
    by (rule map_cong) (auto simp: heatmap_filtered_def genre_label_def nullish_or_def)
  have "topKGenres (heatmap_filtered data) 10
        = map fst (take (nat 10) (ranking (map genre_label (heatmap_filtered data))))"
    by (rule topKGenres_ranking) simp
  then show ?thesis
    unfolding heatmap_top_ranking e by simp
qed

text \<open>
  C2. The three views do not use the same set of top genres. On eleven tracks of 2021
  with the genres a to k and one more track of genre k in 2020, the heatmap ranks the
  genres across all years and keeps k and a to i, so that its \<open>Other\<close> is the genre j; the
  scatter view and the parallel-coordinates view rank the rows of the selected year 2021
  and keep a to j, so that their \<open>Other\<close> is the genre k. With the cell (2021, Other)
  selected, both views show the track of genre k, which the heatmap does not count in that
  cell.
\<close>

theorem bucketing_diverges:
  "heatmap_top eleven_genres
     = map Str [''k'', ''a'', ''b'', ''c'', ''d'', ''e'', ''f'', ''g'', ''h'', ''i'']
   \<and> topKGenres (year_filter (Some 2021) (scatter_rows eleven_genres)) 10
     = map Str [''a'', ''b'', ''c'', ''d'', ''e'', ''f'', ''g'', ''h'', ''i'', ''j'']
   \<and> topKGenres (year_filter (Some 2021) (pc_rows eleven_genres)) 10
     = map Str [''a'', ''b'', ''c'', ''d'', ''e'', ''f'', ''g'', ''h'', ''i'', ''j'']
   \<and> bucket (heatmap_top eleven_genres) (Str ''j'') = Str ''Other''
   \<and> bucket (heatmap_top eleven_genres) (Str ''k'') = Str ''k''
   \<and> scatter_filtered eleven_genres (Some 2021) (Some ''Other'') = [view_row 2021 ''k'' 50]
   \<and> sample eleven_genres (Some 2021) (Some ''Other'') = [view_row 2021 ''k'' 50]"
proof -
  have 1: "bucket (heatmap_top eleven_genres) (Str ''j'') = Str ''Other''"
    and 2: "bucket (heatmap_top eleven_genres) (Str ''k'') = Str ''k''"
    unfolding heatmap_eleven by (simp_all add: bucket_def)
  have 3: "scatter_filtered eleven_genres (Some 2021) (Some ''Other'') = [view_row 2021 ''k'' 50]"
    by (simp add: scatter_filtered_def scatter_rows_eleven genre_filter_eleven)
  have 4: "sample eleven_genres (Some 2021) (Some ''Other'') = [view_row 2021 ''k'' 50]"
    by (simp add: sample_def pc_filtered_def pc_rows_eleven genre_filter_eleven js_sort_def
          slice0_def)
  show ?thesis
    unfolding scatter_rows_eleven pc_rows_eleven
    using heatmap_eleven topK_eleven 1 2 3 4 by (intro conjI)
qed

end
